theory Spec2Isabelle
  imports Main "HOL-Library.AList"
begin

section \<open>Strings\<close>

text \<open>
  JavaScript strings are modelled as \<^typ>\<open>string\<close>, one \<^typ>\<open>char\<close> per code unit
  below 256.  Of the code units that \<open>String.prototype.trim\<close> removes, the ones in that
  range are TAB, LF, VT, FF, CR, SPACE and NBSP.  The general theorems use of this set
  only that the digits and the characters \<open>[\<close>, \<open>]\<close>, \<open>.\<close> and \<open>$\<close> are not in it.
\<close>

definition isSpace :: "char \<Rightarrow> bool" where
  "isSpace c = (c \<in> set [CHR 0x09, CHR 0x0A, CHR 0x0B, CHR 0x0C, CHR 0x0D, CHR '' '', CHR 0xA0])"

definition trim :: "string \<Rightarrow> string" where
  "trim s = rev (dropWhile isSpace (rev (dropWhile isSpace s)))"

definition startsWith :: "string \<Rightarrow> string \<Rightarrow> bool" where
  "startsWith s p = (take (length p) s = p)"

definition includes_str :: "string \<Rightarrow> char \<Rightarrow> bool" where
  "includes_str s c = (c \<in> set s)"

definition isDigit :: "char \<Rightarrow> bool" where
  "isDigit c = (c \<in> set ''0123456789'')"

text \<open>The regular expression \<open>/^\d+$/\<close>: one or more ASCII digits and nothing else.\<close>

definition digitsOnly :: "string \<Rightarrow> bool" where
  "digitsOnly s = (s \<noteq> [] \<and> list_all isDigit s)"

text \<open>\<open>String(n)\<close> for a non-negative integer array index: decimal, no leading zero.\<close>

fun toString :: "nat \<Rightarrow> string" where
  "toString n = (if n < 10 then [''0123456789'' ! n]
                 else toString (n div 10) @ [''0123456789'' ! (n mod 10)])"

declare toString.simps [simp del]

section \<open>parseJsonPath\<close>

text \<open>
  The inner loop of the bracket branch: characters are appended to \<open>acc\<close> until a
  \<open>]\<close>.  The result is \<open>acc\<close> with the text after the \<open>]\<close>; running off the end of the
  input (\<open>j >= s.length\<close>) is \<open>None\<close>.
\<close>

fun readBracket :: "string \<Rightarrow> string \<Rightarrow> (string \<times> string) option" where
  "readBracket [] acc = None"
| "readBracket (c # cs) acc =
     (if c = CHR '']'' then Some (acc, cs) else readBracket cs (acc @ [c]))"

text \<open>\<open>if (buf) tokens.push(buf), (buf = "")\<close>: the tokens after the statement.\<close>

definition flush :: "string \<Rightarrow> string list \<Rightarrow> string list" where
  "flush buf tokens = (if buf \<noteq> [] then tokens @ [buf] else tokens)"

text \<open>\<open>if (s[i] === ".") i++\<close> after a closing bracket.\<close>

definition eatDot :: "string \<Rightarrow> string" where
  "eatDot s = (case s of [] \<Rightarrow> [] | c # cs \<Rightarrow> if c = CHR ''.'' then cs else s)"

lemma readBracket_shorter:
  "readBracket cs acc = Some (a, r) \<Longrightarrow> length r < length cs"
  by (induction cs arbitrary: acc) (auto split: if_splits intro: less_SucI)

lemma eatDot_length: "length (eatDot s) \<le> length s"
  by (cases s) (auto simp: eatDot_def)

text \<open>
  The main loop over the text from position \<open>i\<close> on, with the pending buffer and the
  tokens pushed so far.  \<open>None\<close> is the source's \<open>return null\<close>.
\<close>

function scan :: "string \<Rightarrow> string \<Rightarrow> string list \<Rightarrow> string list option" where
  "scan [] buf tokens = Some (flush buf tokens)"
| "scan (ch # rest) buf tokens =
     (if ch = CHR ''.'' then scan rest [] (flush buf tokens)
      else if ch = CHR ''['' then
        (case readBracket rest [] of
           None \<Rightarrow> None
         | Some (acc, rest') \<Rightarrow>
             (let idx = trim acc in
              if \<not> digitsOnly idx then None
              else scan (eatDot rest') [] (flush buf tokens @ [''['' @ idx @ '']''])))
      else scan rest (buf @ [ch]) tokens)"
  by pat_completeness auto
termination
proof (relation "measure (\<lambda>(s, buf, tokens). length s)")
  fix ch :: char and rest buf :: string and tokens :: "string list"
    and x2 :: "string \<times> string" and acc rest' idx :: string
  assume "readBracket rest [] = Some x2" and "(acc, rest') = x2"
  then have "length rest' < length rest"
    using readBracket_shorter [of rest "[]" acc rest'] by simp
  moreover have "length (eatDot rest') \<le> length rest'"
    by (rule eatDot_length)
  ultimately show "((eatDot rest', [], flush buf tokens @ [''['' @ idx @ '']'']), ch # rest, buf, tokens)
      \<in> measure (\<lambda>(s, buf, tokens). length s)"
    by simp
qed auto

declare scan.simps [simp del]

definition parseJsonPath :: "string \<Rightarrow> string list option" where
  "parseJsonPath input =
     (if input = [] then Some []
      else
        (let s = trim input;
             s = (if startsWith s ''$'' then drop 1 s else s);
             s = (if startsWith s ''.'' then drop 1 s else s)
         in map_option (filter (\<lambda>t. t \<noteq> [])) (scan s [] [])))"

section \<open>makeChildPath\<close>

definition makeChildPath :: "string \<Rightarrow> string \<Rightarrow> string" where
  "makeChildPath parentPath key =
     (if startsWith key ''['' then (if parentPath \<noteq> [] then parentPath @ key else key)
      else (if parentPath \<noteq> [] then parentPath @ ''.'' @ key else key))"

section \<open>buildFlowFromJSON\<close>

text \<open>
  A parsed JSON value.  An object is the list of its own keys, in the order
  \<open>Object.keys\<close> enumerates them, each with its value; an array is the list of its items.
  A primitive (string, number, boolean or \<open>null\<close>) is kept as the text
  \<open>JSON.stringify\<close> gives for it, which is all the builder reads of it.
\<close>

datatype json =
    JObject "(string \<times> json) list"
  | JArray "json list"
  | JPrimitive string

text \<open>The keys of a JavaScript object are pairwise distinct, at every level.\<close>

fun wellFormed :: "json \<Rightarrow> bool" where
  "wellFormed (JObject kvs) = (distinct (map fst kvs) \<and> list_all (\<lambda>kv. wellFormed (snd kv)) kvs)"
| "wellFormed (JArray items) = list_all wellFormed items"
| "wellFormed (JPrimitive lit) = True"

text \<open>
  A node \<open>{id, position: {x, y}, data: {label, tooltip, type}, style}\<close>.  The style is
  fixed by the type and is left out; \<open>x\<close> and \<open>y\<close> are multiples of 130 and 110, kept as
  integers.
\<close>

record node =
  node_id :: string
  pos_x :: int
  pos_y :: int
  label :: string
  tooltip :: string
  node_type :: string

record edge =
  edge_id :: string
  source :: string
  target :: string

text \<open>
  The variables \<open>nodes\<close>, \<open>edges\<close> and \<open>leafOrderAtDepth\<close> that the inner functions of
  \<open>buildFlowFromJSON\<close> update.  \<open>leafOrderAtDepth\<close> is the dictionary from depth to
  counter, as a list of entries.
\<close>

record builder =
  nodes :: "node list"
  edges :: "edge list"
  leafOrderAtDepth :: "(nat \<times> nat) list"

definition X_STEP :: int where "X_STEP = 260"
definition Y_STEP :: int where "Y_STEP = 110"

definition nodeTypeOf :: "json \<Rightarrow> string" where
  "nodeTypeOf v = (case v of JArray _ \<Rightarrow> ''array'' | JObject _ \<Rightarrow> ''object''
                   | JPrimitive _ \<Rightarrow> ''primitive'')"

definition addNode :: "string \<Rightarrow> string \<Rightarrow> string \<Rightarrow> nat \<Rightarrow> string \<Rightarrow> builder \<Rightarrow> builder" where
  "addNode nid lbl ty depth tip b =
     (let order = (case map_of (leafOrderAtDepth b) depth of None \<Rightarrow> 0 | Some c \<Rightarrow> c);
          x = int order * X_STEP;
          y = int depth * Y_STEP
      in b\<lparr> leafOrderAtDepth := AList.update depth (order + 1) (leafOrderAtDepth b),
             nodes := nodes b @ [\<lparr> node_id = nid, pos_x = x, pos_y = y, label = lbl,
                                    tooltip = tip, node_type = ty \<rparr>] \<rparr>)"

definition toUpperCase :: "string \<Rightarrow> string" where
  "toUpperCase s =
     map (\<lambda>c. if c \<in> set ''abcdefghijklmnopqrstuvwxyz'' then char_of (of_char c - (32::nat)) else c) s"

text \<open>\<open>path || keyLabel\<close>\<close>

definition orElse :: "string \<Rightarrow> string \<Rightarrow> string" where
  "orElse path keyLabel = (if path \<noteq> [] then path else keyLabel)"

text \<open>
  The body of \<open>traverse(value, path, depth, parentId, keyLabel)\<close> up to its loops: the
  label and the tooltip, \<open>addNode\<close>, and the edge from the parent.  \<open>parentId\<close> is \<open>None\<close>
  for \<open>null\<close>.
\<close>

definition enter :: "json \<Rightarrow> string \<Rightarrow> nat \<Rightarrow> string option \<Rightarrow> string \<Rightarrow> builder \<Rightarrow> builder" where
  "enter v path depth parentId keyLabel b =
     (let ty = nodeTypeOf v;
          nodeLabel =
            (if ty = ''object'' then keyLabel @ '' { }''
             else if ty = ''array'' then keyLabel @ '' [ ]''
             else keyLabel @ '': '' @ (case v of JPrimitive lit \<Rightarrow> lit | _ \<Rightarrow> []));
          tip = orElse path keyLabel @ [CHR 0x0A] @ toUpperCase ty;
          b1 = addNode (orElse path keyLabel) nodeLabel ty depth tip b
      in case parentId of
           None \<Rightarrow> b1
         | Some p \<Rightarrow>
             if p \<noteq> [] then
               b1\<lparr> edges := edges b1 @
                     [\<lparr> edge_id = p @ ''->'' @ orElse path keyLabel, source = p,
                        target = orElse path keyLabel \<rparr>] \<rparr>
             else b1)"

text \<open>
  \<open>traverse\<close>, with the \<open>forEach\<close> loops over \<open>Object.keys(value)\<close> and over the items of
  an array as \<open>forEachKey\<close> and \<open>forEachItem\<close>.
\<close>

fun traverse :: "json \<Rightarrow> string \<Rightarrow> nat \<Rightarrow> string option \<Rightarrow> string \<Rightarrow> builder \<Rightarrow> builder"
  and forEachKey :: "(string \<times> json) list \<Rightarrow> string \<Rightarrow> nat \<Rightarrow> string \<Rightarrow> builder \<Rightarrow> builder"
  and forEachItem :: "json list \<Rightarrow> nat \<Rightarrow> string \<Rightarrow> nat \<Rightarrow> string \<Rightarrow> builder \<Rightarrow> builder"
where
  "traverse (JObject kvs) path depth parentId keyLabel b =
     forEachKey kvs path (depth + 1) (orElse path keyLabel)
       (enter (JObject kvs) path depth parentId keyLabel b)"
| "traverse (JArray items) path depth parentId keyLabel b =
     forEachItem items 0 path (depth + 1) (orElse path keyLabel)
       (enter (JArray items) path depth parentId keyLabel b)"
| "traverse (JPrimitive lit) path depth parentId keyLabel b =
     enter (JPrimitive lit) path depth parentId keyLabel b"
| "forEachKey [] path depth pid b = b"
| "forEachKey (kv # kvs) path depth pid b =
     forEachKey kvs path depth pid
       (traverse (snd kv) (makeChildPath path (fst kv)) depth (Some pid) (fst kv) b)"
| "forEachItem [] idx path depth pid b = b"
| "forEachItem (item # items) idx path depth pid b =
     forEachItem items (idx + 1) path depth pid
       (traverse item (makeChildPath path (''['' @ toString idx @ '']'')) depth (Some pid)
          (''['' @ toString idx @ '']'') b)"

definition maxCols :: "(nat \<times> nat) list \<Rightarrow> nat" where
  "maxCols depthCounts = (if depthCounts \<noteq> [] then Max (set (map snd depthCounts)) else 1)"

definition centerX :: "(nat \<times> nat) list \<Rightarrow> int" where
  "centerX depthCounts = ((int (maxCols depthCounts) - 1) * X_STEP) div 2"

definition buildFlowFromJSON :: "json \<Rightarrow> node list \<times> edge list" where
  "buildFlowFromJSON v =
     (let b = traverse v ''root'' 0 None ''root''
                \<lparr> nodes = [], edges = [], leafOrderAtDepth = [] \<rparr>;
          cx = centerX (leafOrderAtDepth b)
      in (map (\<lambda>n. n\<lparr> pos_x := pos_x n - cx \<rparr>) (nodes b), edges b))"

section \<open>The application state and its handlers\<close>

text \<open>
  The \<open>useState\<close> cells of \<open>App\<close> that the handlers below read or write (the \<open>nodes\<close>
  and \<open>edges\<close> cells are \<open>flowNodes\<close> and \<open>flowEdges\<close>).  \<open>builderRuns\<close> is not a cell of
  the source: it counts the calls of \<open>buildFlowFromJSON\<close>.
\<close>

record app =
  raw :: string
  error :: string
  json :: json
  flowNodes :: "node list"
  flowEdges :: "edge list"
  query :: string
  matchMsg :: string
  highlightId :: string
  builderRuns :: nat

text \<open>
  \<open>setJson(parsed)\<close> with the render that follows it: \<open>useMemo\<close> on \<open>[json]\<close> calls the
  builder again when the new value is not the old one by \<open>Object.is\<close>, and the effect on
  \<open>[builtNodes, builtEdges]\<close> stores the graph and clears the highlight and the message.
  A freshly parsed object or array is never the old value.  For a primitive \<open>Object.is\<close>
  compares the values themselves, of which the model keeps only the JSON text, so the
  comparison is a parameter.
\<close>

definition setJson :: "(json \<Rightarrow> json \<Rightarrow> bool) \<Rightarrow> json \<Rightarrow> app \<Rightarrow> app" where
  "setJson Object_is parsed st =
     (if (case parsed of JPrimitive _ \<Rightarrow> Object_is (json st) parsed | _ \<Rightarrow> False) then st
      else
        (let built = buildFlowFromJSON parsed
         in st\<lparr> json := parsed, flowNodes := fst built, flowEdges := snd built,
                 highlightId := [], matchMsg := [], builderRuns := builderRuns st + 1 \<rparr>))"

text \<open>
  \<open>visualize\<close>.  \<open>JSON.parse\<close> is a parameter: \<open>None\<close> where it throws.
\<close>

definition visualize :: "(json \<Rightarrow> json \<Rightarrow> bool) \<Rightarrow> (string \<Rightarrow> json option) \<Rightarrow> app \<Rightarrow> app" where
  "visualize Object_is JSON_parse st =
     (let st1 = st\<lparr> error := [] \<rparr>
      in case JSON_parse (raw st1) of
           Some parsed \<Rightarrow> setJson Object_is parsed st1
         | None \<Rightarrow> st1\<lparr> error := ''Invalid JSON. Please fix the syntax and try again.'' \<rparr>)"

definition findNodeByPath :: "node list \<Rightarrow> string \<Rightarrow> node option" where
  "findNodeByPath ns pathStr =
     (case parseJsonPath pathStr of
        None \<Rightarrow> None
      | Some tokens \<Rightarrow>
          find (\<lambda>n. node_id n = fold (\<lambda>t path. makeChildPath path t) tokens ''root'') ns)"

text \<open>The expression bound to \<open>normalized\<close> in \<open>doSearch\<close>.\<close>

definition normalizeQuery :: "string \<Rightarrow> string" where
  "normalizeQuery q =
     (if startsWith q ''$'' \<or> startsWith q ''root'' \<or> includes_str q (CHR ''['')
         \<or> includes_str q (CHR ''.'')
      then q else ''$.'' @ q)"

definition doSearch :: "app \<Rightarrow> app" where
  "doSearch st =
     (let st1 = st\<lparr> matchMsg := [] \<rparr>;
          q = trim (query st1)
      in if q = [] then st1
         else
           (case findNodeByPath (flowNodes st1) (normalizeQuery q) of
              None \<Rightarrow> st1\<lparr> highlightId := [], matchMsg := ''No match found'' \<rparr>
            | Some n \<Rightarrow> st1\<lparr> highlightId := node_id n, matchMsg := ''Match found'' \<rparr>))"

text \<open>
  The text \<open>onNodeClick\<close> copies: \<open>node.id.replace(/^root\.?/, "")\<close>.
\<close>

definition clickText :: "string \<Rightarrow> string" where
  "clickText nid =
     (if startsWith nid ''root.'' then drop 5 nid
      else if startsWith nid ''root'' then drop 4 nid
      else nid)"

text \<open>
  The specification's tokens \<open>Key(k)\<close> and \<open>Index(i)\<close>; the source writes them as the
  strings \<open>k\<close> and \<open>[i]\<close>.
\<close>

datatype token = Key string | Index nat

fun tokenString :: "token \<Rightarrow> string" where
  "tokenString (Key k) = k"
| "tokenString (Index i) = ''['' @ toString i @ '']''"

text \<open>The graph of Scenario B, \<open>{"items":[{"id":1}]}\<close>, and a state that shows it.\<close>

definition scenarioB :: json where
  "scenarioB = JObject [(''items'', JArray [JObject [(''id'', JPrimitive ''1'')]])]"

definition showing :: "json \<Rightarrow> string \<Rightarrow> app" where
  "showing v q =
     \<lparr> raw = [], error = [], json = v, flowNodes = fst (buildFlowFromJSON v),
       flowEdges = snd (buildFlowFromJSON v), query = q, matchMsg = [], highlightId = [],
       builderRuns = 1 \<rparr>"

section \<open>Example documents\<close>

text \<open>The document \<open>{k: 1}\<close> for a key \<open>k\<close>, and \<open>{"": 1}\<close>, whose member gets the id \<open>root.\<close>.\<close>

definition docWithKey :: "string \<Rightarrow> json" where
  "docWithKey k = JObject [(k, JPrimitive ''1'')]"

definition emptyKeyDoc :: json where
  "emptyKeyDoc = JObject [([], JPrimitive ''1'')]"

text \<open>The document \<open>{"a": [1, 2], "b": 3}\<close>.\<close>

definition layoutDoc :: json where
  "layoutDoc = JObject [(''a'', JArray [JPrimitive ''1'', JPrimitive ''2'']), (''b'', JPrimitive ''3'')]"

text \<open>The document \<open>{"a.b": 1, "a": {"b": 2}}\<close>.\<close>

definition collisionDoc :: json where
  "collisionDoc = JObject [(''a.b'', JPrimitive ''1''), (''a'', JObject [(''b'', JPrimitive ''2'')])]"

text \<open>The document \<open>{"a": [10, 20]}\<close>.\<close>

definition zeroDoc :: json where
  "zeroDoc = JObject [(''a'', JArray [JPrimitive ''10'', JPrimitive ''20''])]"

text \<open>The document \<open>{"a": {"": 1}}\<close>.\<close>

definition nestedEmptyDoc :: json where
  "nestedEmptyDoc = JObject [(''a'', docWithKey [])]"

text \<open>The document \<open>{"a.b": {"$c": [5]}, "x[0]": 1}\<close>.\<close>

definition dottedDoc :: json where
  "dottedDoc = JObject [(''a.b'', JObject [(''$c'', JArray [JPrimitive ''5''])]),
                        (''x[0]'', JPrimitive ''1'')]"

section \<open>Predicates of the statements\<close>

subsection \<open>Paths and tokens\<close>

text \<open>
  A bracket segment, given the text after its \<open>[\<close>, is bad when no \<open>]\<close> follows or when
  the text up to the first \<open>]\<close>, trimmed, is not a string of digits.  A path text is
  malformed when some \<open>[\<close> of it starts a bad bracket segment.
\<close>

definition badBracket :: "string \<Rightarrow> bool" where
  "badBracket rest =
     (CHR '']'' \<notin> set rest \<or> \<not> digitsOnly (trim (takeWhile (\<lambda>c. c \<noteq> CHR '']'') rest)))"

fun malformed :: "string \<Rightarrow> bool" where
  "malformed [] = False"
| "malformed (c # cs) = ((c = CHR ''['' \<and> badBracket cs) \<or> malformed cs)"

text \<open>
  A string is free of separators when it has no \<open>.\<close> and no \<open>[\<close>.  A key token is such a
  string that is not empty; an index token is a string of digits in brackets.  These are
  the tokens of \<open>parseJsonPath\<close>.
\<close>

definition sepFree :: "string \<Rightarrow> bool" where
  "sepFree k = (CHR ''.'' \<notin> set k \<and> CHR ''['' \<notin> set k)"

definition keyTok :: "string \<Rightarrow> bool" where
  "keyTok t = (t \<noteq> [] \<and> sepFree t)"

definition idxTok :: "string \<Rightarrow> bool" where
  "idxTok t =
     (case t of [] \<Rightarrow> False
      | c # cs \<Rightarrow> c = CHR ''['' \<and> cs \<noteq> [] \<and> last cs = CHR '']'' \<and> digitsOnly (butlast cs))"

definition goodTok :: "string \<Rightarrow> bool" where
  "goodTok t = (keyTok t \<or> idxTok t)"

text \<open>
  The key \<open>[i]\<close> that \<open>traverse\<close> gives the \<open>i\<close>-th item of an array.  A token of the
  builder is an object key with the property \<open>P\<close>, or the key of an array item.
\<close>

definition indexKey :: "nat \<Rightarrow> string" where
  "indexKey i = ''['' @ toString i @ '']''"

definition builderTok :: "(string \<Rightarrow> bool) \<Rightarrow> string \<Rightarrow> bool" where
  "builderTok P t = (P t \<or> (\<exists>i. t = indexKey i))"

text \<open>
  What covers both kinds: a string free of separators, or a bracket around a string
  without \<open>]\<close>.
\<close>

definition pathTok :: "string \<Rightarrow> bool" where
  "pathTok t = (sepFree t \<or> (\<exists>ds. CHR '']'' \<notin> set ds \<and> t = ''['' @ ds @ '']''))"

text \<open>A string of two or more digits that starts with \<open>0\<close>.\<close>

definition leadingZero :: "string \<Rightarrow> bool" where
  "leadingZero ds = (digitsOnly ds \<and> 1 < length ds \<and> hd ds = CHR ''0'')"

text \<open>The number that a string of digits writes.\<close>

definition fromDigits :: "string \<Rightarrow> nat" where
  "fromDigits s = foldl (\<lambda>a c. 10 * a + (of_char c - 48)) 0 s"

text \<open>
  The loop of \<open>findNodeByPath\<close>: the path composed from \<open>p\<close> and the tokens.  For a parent
  path that is not empty, \<open>makeChildPath\<close> appends the segment \<open>seg t\<close> of the token.
\<close>

definition compose :: "string \<Rightarrow> string list \<Rightarrow> string" where
  "compose p ts = fold (\<lambda>t path. makeChildPath path t) ts p"

definition seg :: "string \<Rightarrow> string" where
  "seg t = (if startsWith t ''['' then t else ''.'' @ t)"

text \<open>What can follow a segment in a composed path: nothing, or the next segment.\<close>

definition tailOK :: "string \<Rightarrow> bool" where
  "tailOK T = (T = [] \<or> hd T = CHR ''.'' \<or> hd T = CHR ''['')"

text \<open>
  A path has an empty key segment when one of its dots is followed by a dot, by a
  bracket or by nothing.  A path is fine when it is not empty, does not end in a dot and
  has no empty key segment.
\<close>

fun emptyKeySegment :: "string \<Rightarrow> bool" where
  "emptyKeySegment [] = False"
| "emptyKeySegment [c] = (c = CHR ''.'')"
| "emptyKeySegment (c # d # cs) =
     ((c = CHR ''.'' \<and> (d = CHR ''.'' \<or> d = CHR ''['')) \<or> emptyKeySegment (d # cs))"

definition pathOK :: "string \<Rightarrow> bool" where
  "pathOK p = (p \<noteq> [] \<and> last p \<noteq> CHR ''.'' \<and> \<not> emptyKeySegment p)"

subsection \<open>Documents\<close>

text \<open>Every object key of the document, at every level, has the property \<open>P\<close>.\<close>

fun allKeys :: "(string \<Rightarrow> bool) \<Rightarrow> json \<Rightarrow> bool" where
  "allKeys P (JObject kvs) = list_all (\<lambda>kv. P (fst kv) \<and> allKeys P (snd kv)) kvs"
| "allKeys P (JArray items) = list_all (allKeys P) items"
| "allKeys P (JPrimitive lit) = True"

text \<open>
  The values of a document in depth-first pre-order, each with the tokens that lead to it
  from the root: an object key as it is, the \<open>i\<close>-th item of an array as \<open>[i]\<close>.  \<open>paths\<close>
  are the token lists alone, and \<open>depths\<close> their lengths: the depth of every value.
\<close>

fun subvalues :: "json \<Rightarrow> (string list \<times> json) list"
  and subvaluesKeys :: "(string \<times> json) list \<Rightarrow> (string list \<times> json) list"
  and subvaluesItems :: "json list \<Rightarrow> nat \<Rightarrow> (string list \<times> json) list"
where
  "subvalues (JObject kvs) = ([], JObject kvs) # subvaluesKeys kvs"
| "subvalues (JArray items) = ([], JArray items) # subvaluesItems items 0"
| "subvalues (JPrimitive lit) = [([], JPrimitive lit)]"
| "subvaluesKeys [] = []"
| "subvaluesKeys (kv # kvs) =
     map (\<lambda>(ts, sv). (fst kv # ts, sv)) (subvalues (snd kv)) @ subvaluesKeys kvs"
| "subvaluesItems [] idx = []"
| "subvaluesItems (item # items) idx =
     map (\<lambda>(ts, sv). ((''['' @ toString idx @ '']'') # ts, sv)) (subvalues item)
       @ subvaluesItems items (idx + 1)"

definition paths :: "json \<Rightarrow> string list list" where
  "paths v = map fst (subvalues v)"

definition pathsKeys :: "(string \<times> json) list \<Rightarrow> string list list" where
  "pathsKeys kvs = map fst (subvaluesKeys kvs)"

definition pathsItems :: "json list \<Rightarrow> nat \<Rightarrow> string list list" where
  "pathsItems items idx = map fst (subvaluesItems items idx)"

definition depths :: "json \<Rightarrow> nat list" where
  "depths v = map (\<lambda>x. length (fst x)) (subvalues v)"

subsection \<open>The builder\<close>

text \<open>The builder's variables as \<open>buildFlowFromJSON\<close> initializes them.\<close>

definition emptyBuilder :: builder where
  "emptyBuilder = \<lparr> nodes = [], edges = [], leafOrderAtDepth = [] \<rparr>"

text \<open>
  What \<open>traverse\<close>, started at path \<open>p\<close> and depth \<open>d\<close> with parent \<open>par\<close> and label \<open>kl\<close>,
  does when it reaches the value \<open>x\<close> of \<open>subvalues\<close>; and the edge it pushes there, when
  started without a parent.
\<close>

definition enterAt :: "string \<Rightarrow> nat \<Rightarrow> string option \<Rightarrow> string \<Rightarrow> string list \<times> json \<Rightarrow> builder \<Rightarrow> builder" where
  "enterAt p d par kl x =
     enter (snd x) (compose p (fst x)) (d + length (fst x))
       (if fst x = [] then par else Some (compose p (butlast (fst x))))
       (if fst x = [] then kl else last (fst x))"

definition edgeOf :: "string \<Rightarrow> string list \<Rightarrow> edge" where
  "edgeOf p ts =
     \<lparr> edge_id = compose p (butlast ts) @ ''->'' @ compose p ts,
       source = compose p (butlast ts), target = compose p ts \<rparr>"

text \<open>
  The counter of a depth (\<open>leafOrderAtDepth[depth] ?? 0\<close>), and the position of the
  \<open>i\<close>-th node of a traversal that starts with the counters \<open>al\<close> and visits the depths
  \<open>ds\<close>.
\<close>

definition cnt :: "(nat \<times> nat) list \<Rightarrow> nat \<Rightarrow> nat" where
  "cnt al d = (case map_of al d of None \<Rightarrow> 0 | Some c \<Rightarrow> c)"

definition slot :: "(nat \<times> nat) list \<Rightarrow> nat list \<Rightarrow> nat \<Rightarrow> int \<times> int" where
  "slot al ds i = (int (cnt al (ds ! i) + count_list (take i ds) (ds ! i)) * 260, int (ds ! i) * 110)"

text \<open>The edges as a relation on node ids.\<close>

definition edgeRel :: "edge list \<Rightarrow> (string \<times> string) set" where
  "edgeRel es = (\<lambda>e. (source e, target e)) ` set es"

subsection \<open>Keys that read as paths\<close>

text \<open>
  A text is a sequence of segments when it is made of pieces of two kinds: a dot and
  one or more characters other than \<open>.\<close> and \<open>[\<close>, or a \<open>[\<close>, one or more digits and a
  \<open>]\<close>.  The empty text is the sequence of no segments.
\<close>

definition notSep :: "char \<Rightarrow> bool" where
  "notSep c = (c \<noteq> CHR ''.'' \<and> c \<noteq> CHR ''['')"

function segments :: "string \<Rightarrow> bool" where
  "segments [] = True"
| "segments (c # cs) =
     (if c = CHR ''.'' then takeWhile notSep cs \<noteq> [] \<and> segments (dropWhile notSep cs)
      else if c = CHR ''['' then
        CHR '']'' \<in> set cs \<and> digitsOnly (takeWhile (\<lambda>d. d \<noteq> CHR '']'') cs)
        \<and> segments (drop 1 (dropWhile (\<lambda>d. d \<noteq> CHR '']'') cs))
      else False)"
  by pat_completeness auto
termination
  by (relation "measure length") (auto simp: length_dropWhile_le le_imp_less_Suc intro: le_less_trans [OF diff_le_self])

text \<open>
  A key reads as a path when what \<open>makeChildPath\<close> appends for it (the key itself when it
  starts with \<open>[\<close>, a dot and the key otherwise) is a sequence of segments, and the key
  does not end in whitespace.  So \<open>a\<close>, \<open>a.b\<close>, \<open>a[0]\<close> and \<open>a b\<close> read as paths; the empty
  key, \<open>a.\<close>, \<open>a..b\<close>, \<open>a[b\<close>, \<open>a[ 0]\<close> and \<open>a \<close> do not.
\<close>

definition pathKey :: "string \<Rightarrow> bool" where
  "pathKey k = (segments (seg k) \<and> k \<noteq> [] \<and> \<not> isSpace (last k))"

text \<open>
  The keys of the root object (none when the root is not an object); such a key opens a
  path when it starts neither with \<open>$\<close> nor with whitespace.
\<close>

definition rootKeys :: "json \<Rightarrow> string list" where
  "rootKeys v = (case v of JObject kvs \<Rightarrow> map fst kvs | _ \<Rightarrow> [])"

definition opensPath :: "string \<Rightarrow> bool" where
  "opensPath k = (k \<noteq> [] \<and> hd k \<noteq> CHR ''$'' \<and> \<not> isSpace (hd k))"

text \<open>
  A text contains an index with a leading zero when somewhere in it stands a \<open>[\<close>, then
  two or more digits of which the first is \<open>0\<close>, then a \<open>]\<close>: as \<open>a[01]\<close> does, and
  \<open>a[0]\<close>, \<open>a[10]\<close>, \<open>a[b\<close> and \<open>a.b\<close> do not.  \<open>zeroIndexHead\<close> looks at what follows a
  \<open>[\<close>.
\<close>

definition zeroIndexHead :: "string \<Rightarrow> bool" where
  "zeroIndexHead cs = (CHR '']'' \<in> set cs \<and> leadingZero (takeWhile (\<lambda>d. d \<noteq> CHR '']'') cs))"

fun hasZeroIndex :: "string \<Rightarrow> bool" where
  "hasZeroIndex [] = False"
| "hasZeroIndex (c # cs) = ((c = CHR ''['' \<and> zeroIndexHead cs) \<or> hasZeroIndex cs)"

definition noZeroIndex :: "string \<Rightarrow> bool" where
  "noZeroIndex k = (\<not> hasZeroIndex k)"

subsection \<open>Searching\<close>

text \<open>
  What \<open>doSearch\<close> does with a query: on a query that is empty when trimmed it returns
  before any lookup; otherwise it looks the normalized query up with \<open>findNodeByPath\<close>.
\<close>

datatype outcome = NoLookup | NotFound | Found node

definition resolve :: "node list \<Rightarrow> string \<Rightarrow> outcome" where
  "resolve ns qry =
     (let q = trim qry
      in if q = [] then NoLookup
         else case findNodeByPath ns (normalizeQuery q) of
                None \<Rightarrow> NotFound
              | Some n \<Rightarrow> Found n)"

fun foundId :: "outcome \<Rightarrow> string option" where
  "foundId (Found n) = Some (node_id n)"
| "foundId NotFound = None"
| "foundId NoLookup = None"

text \<open>
  The outcome of searching, in the graph of \<open>v\<close>, for the text copied from the \<open>i\<close>-th
  node of that graph.
\<close>

definition roundTrip :: "json \<Rightarrow> nat \<Rightarrow> outcome" where
  "roundTrip v i =
     resolve (fst (buildFlowFromJSON v)) (clickText (node_id (fst (buildFlowFromJSON v) ! i)))"

section \<open>Whitespace\<close>

lemma dropWhile_fix: "xs = [] \<or> \<not> P (hd xs) \<Longrightarrow> dropWhile P xs = xs"
  by (cases xs) auto

lemma dropEnd_hd:
  assumes ne: "rev (dropWhile P (rev t)) \<noteq> []"
  shows "hd (rev (dropWhile P (rev t))) = hd t"
proof -
  have "rev (dropWhile P (rev t)) @ rev (takeWhile P (rev t))
      = rev (takeWhile P (rev t) @ dropWhile P (rev t))" by (simp only: rev_append)
  also have "\<dots> = t" by simp
  finally have "t = rev (dropWhile P (rev t)) @ rev (takeWhile P (rev t))" by simp
  then have "hd t = hd (rev (dropWhile P (rev t)) @ rev (takeWhile P (rev t)))" by simp
  with ne show ?thesis by simp
qed

lemma trim_idem: "trim (trim s) = trim s"
proof -
  define t where "t = dropWhile isSpace s"
  define u where "u = rev (dropWhile isSpace (rev t))"
  have tu: "trim s = u" by (simp add: trim_def t_def u_def)
  have t0: "t = [] \<or> \<not> isSpace (hd t)"
    unfolding t_def by (metis hd_dropWhile)
  have "u = [] \<or> \<not> isSpace (hd u)"
  proof (cases "u = []")
    case False
    then have "hd u = hd t" unfolding u_def by (rule dropEnd_hd)
    moreover from False have "t \<noteq> []" unfolding u_def by auto
    ultimately show ?thesis using t0 by simp
  qed simp
  then have 1: "dropWhile isSpace u = u" by (rule dropWhile_fix)
  have 2: "dropWhile isSpace (rev u) = rev u"
    unfolding u_def by simp
  show ?thesis unfolding tu by (simp add: trim_def 1 2)
qed

lemma trim_all_space:
  assumes "list_all isSpace s"
  shows "trim s = []"
proof -
  from assms have e: "dropWhile isSpace s = []"
    by (induction s) auto
  show ?thesis unfolding trim_def e by simp
qed

lemma trim_Nil [simp]: "trim [] = []"
  by (simp add: trim_def)

section \<open>Tokenizing ignores surrounding whitespace\<close>

text \<open>
  C9.  For every input \<open>s\<close>, \<open>parseJsonPath\<close> gives the same result on \<open>s\<close> and on \<open>s\<close>
  with its leading and trailing whitespace removed; an input of whitespace only gives
  the empty token sequence.
\<close>

theorem parseJsonPath_trim:
  "parseJsonPath (trim s) = parseJsonPath s
   \<and> (list_all isSpace s \<longrightarrow> parseJsonPath s = Some [])"
proof
  show "parseJsonPath (trim s) = parseJsonPath s"
  proof (cases "s = []")
    case True
    then show ?thesis by simp
  next
    case False
    show ?thesis
    proof (cases "trim s = []")
      case True
      with False show ?thesis
        by (simp add: parseJsonPath_def startsWith_def scan.simps flush_def)
    next
      case nonempty: False
      with False show ?thesis
        by (simp add: parseJsonPath_def trim_idem)
    qed
  qed
  show "list_all isSpace s \<longrightarrow> parseJsonPath s = Some []"
    by (simp add: parseJsonPath_def trim_all_space startsWith_def scan.simps flush_def)
qed

theorem parseJsonPath_trim_witness:
  "list_all isSpace [CHR '' '', CHR 0x09] \<and> parseJsonPath [CHR '' '', CHR 0x09] = Some []
   \<and> parseJsonPath (trim '' a[0] '') = parseJsonPath '' a[0] ''"
  using parseJsonPath_trim [of "[CHR '' '', CHR 0x09]"] parseJsonPath_trim [of "'' a[0] ''"]
  by (simp add: isSpace_def)

section \<open>A document that does not parse\<close>

text \<open>
  C7.  When \<open>JSON.parse\<close> throws on the raw text, \<open>visualize\<close> changes nothing but the
  error message: the JSON value, the nodes and the edges stay as they are, and the
  builder is not called.
\<close>

theorem visualize_invalid:
  assumes "JSON_parse (raw st) = None"
  shows "visualize Object_is JSON_parse st =
           st\<lparr> error := ''Invalid JSON. Please fix the syntax and try again.'' \<rparr>
    \<and> json (visualize Object_is JSON_parse st) = json st
    \<and> flowNodes (visualize Object_is JSON_parse st) = flowNodes st
    \<and> flowEdges (visualize Object_is JSON_parse st) = flowEdges st
    \<and> builderRuns (visualize Object_is JSON_parse st) = builderRuns st"
  using assms by (simp add: visualize_def)

theorem visualize_invalid_witness:
  "(\<lambda>s. if s = ''{}'' then Some (JObject []) else None) (raw ((showing scenarioB [])\<lparr> raw := ''[1,'' \<rparr>)) = None
   \<and> visualize (\<lambda>old new. old = new) (\<lambda>s. if s = ''{}'' then Some (JObject []) else None)
        ((showing scenarioB [])\<lparr> raw := ''[1,'' \<rparr>)
       = (showing scenarioB [])\<lparr> raw := ''[1,'',
            error := ''Invalid JSON. Please fix the syntax and try again.'' \<rparr>"
  using visualize_invalid [of "\<lambda>s. if s = ''{}'' then Some (JObject []) else None"
      "(showing scenarioB [])\<lparr> raw := ''[1,'' \<rparr>" "\<lambda>old new. old = new"]
  by simp

section \<open>Scenario B\<close>

lemma scenarioB_nodes:
  "map node_id (fst (buildFlowFromJSON scenarioB)) =
     [''root'', ''root.items'', ''root.items[0]'', ''root.items[0].id'']"
  by code_simp

text \<open>
  C3, as the claim states it: the query \<open>items[0].id\<close> would be normalized to
  \<open>$.items[0].id\<close>.  It is not: it contains \<open>[\<close> and \<open>.\<close>, so it is left as it is.
\<close>

theorem scenarioB_normalized_counterexample:
  "normalizeQuery ''items[0].id'' \<noteq> ''$.items[0].id''"
  by (simp add: normalizeQuery_def includes_str_def)

text \<open>
  C3, amended.  Against the graph of \<open>{"items":[{"id":1}]}\<close>, normalization leaves the
  query \<open>items[0].id\<close> unchanged; it tokenizes to \<open>Key items, Index 0, Key id\<close> (as does
  \<open>$.items[0].id\<close>), and the search finds the node \<open>root.items[0].id\<close>.
\<close>

theorem scenarioB_resolves:
  "normalizeQuery ''items[0].id'' = ''items[0].id''
   \<and> parseJsonPath ''items[0].id'' = Some (map tokenString [Key ''items'', Index 0, Key ''id''])
   \<and> parseJsonPath ''$.items[0].id'' = Some (map tokenString [Key ''items'', Index 0, Key ''id''])
   \<and> map_option node_id (findNodeByPath (fst (buildFlowFromJSON scenarioB)) ''items[0].id'')
        = Some ''root.items[0].id''
   \<and> highlightId (doSearch (showing scenarioB ''items[0].id'')) = ''root.items[0].id''
   \<and> matchMsg (doSearch (showing scenarioB ''items[0].id'')) = ''Match found''"
  by code_simp

section \<open>Malformed paths\<close>

lemma readBracket_None: "readBracket cs acc = None \<longleftrightarrow> CHR '']'' \<notin> set cs"
  by (induction cs arbitrary: acc) auto

lemma readBracket_Some:
  "readBracket cs acc = Some (a, r) \<Longrightarrow>
     a = acc @ takeWhile (\<lambda>c. c \<noteq> CHR '']'') cs \<and> cs = takeWhile (\<lambda>c. c \<noteq> CHR '']'') cs @ CHR '']'' # r"
proof (induction cs arbitrary: acc)
  case Nil
  then show ?case by simp
next
  case (Cons c cs)
  show ?case
  proof (cases "c = CHR '']''")
    case True
    with Cons.prems show ?thesis by simp
  next
    case False
    with Cons.prems have "readBracket cs (acc @ [c]) = Some (a, r)" by simp
    from Cons.IH [OF this] False show ?thesis by simp
  qed
qed

lemma malformed_skip: "CHR ''['' \<notin> set xs \<Longrightarrow> malformed (xs @ ys) = malformed ys"
  by (induction xs) auto

lemma malformed_eatDot: "malformed (eatDot s) = malformed s"
  by (cases s) (auto simp: eatDot_def)

lemma isSpace_simps [simp]:
  "\<not> isSpace (CHR ''['')" "\<not> isSpace (CHR '']'')" "\<not> isSpace (CHR ''.'')" "\<not> isSpace (CHR ''$'')"
  by (simp_all add: isSpace_def)

lemma isDigit_simps [simp]:
  "\<not> isDigit (CHR ''['')" "\<not> isDigit (CHR '']'')" "\<not> isDigit (CHR ''.'')" "\<not> isDigit (CHR ''$'')"
  by (simp_all add: isDigit_def)

lemma isDigit_not_space: "isDigit c \<Longrightarrow> \<not> isSpace c"
  by (auto simp: isDigit_def isSpace_def)

lemma trim_split: "\<exists>l r. s = l @ trim s @ r \<and> list_all isSpace l \<and> list_all isSpace r"
proof -
  define t where "t = dropWhile isSpace s"
  have 1: "s = takeWhile isSpace s @ t" by (simp add: t_def)
  have "rev (dropWhile isSpace (rev t)) @ rev (takeWhile isSpace (rev t))
      = rev (takeWhile isSpace (rev t) @ dropWhile isSpace (rev t))" by (simp only: rev_append)
  also have "\<dots> = t" by simp
  finally have 2: "t = trim s @ rev (takeWhile isSpace (rev t))" by (simp add: trim_def t_def)
  have "s = takeWhile isSpace s @ trim s @ rev (takeWhile isSpace (rev t))"
    using 1 2 by simp
  moreover have "list_all isSpace (takeWhile isSpace s)"
    by (simp add: list_all_iff) (metis set_takeWhileD)
  moreover have "list_all isSpace (rev (takeWhile isSpace (rev t)))"
    by (simp add: list_all_iff) (metis set_takeWhileD)
  ultimately show ?thesis by blast
qed

lemma digits_trim_no_bracket:
  assumes "digitsOnly (trim acc)"
  shows "CHR ''['' \<notin> set acc"
proof -
  obtain l r where s: "acc = l @ trim acc @ r" and l: "list_all isSpace l" and r: "list_all isSpace r"
    using trim_split by blast
  have "\<forall>c\<in>set acc. isSpace c \<or> isDigit c"
  proof
    fix c assume "c \<in> set acc"
    then have "c \<in> set l \<or> c \<in> set (trim acc) \<or> c \<in> set r"
      by (subst (asm) s) auto
    then show "isSpace c \<or> isDigit c"
      using l r assms by (auto simp: list_all_iff digitsOnly_def)
  qed
  then show ?thesis by (metis isDigit_simps(1) isSpace_simps(1))
qed

lemma scan_None: "scan s buf tokens = None \<longleftrightarrow> malformed s"
proof (induction s buf tokens rule: scan.induct)
  case (1 buf tokens)
  then show ?case by (simp add: scan.simps)
next
  case (2 ch rest buf tokens)
  show ?case
  proof (cases "ch = CHR ''.''")
    case True
    with 2 show ?thesis by (simp add: scan.simps)
  next
    case notdot: False
    show ?thesis
    proof (cases "ch = CHR ''[''")
      case False
      with notdot 2 show ?thesis by (simp add: scan.simps)
    next
      case True
      show ?thesis
      proof (cases "readBracket rest []")
        case None
        then have "CHR '']'' \<notin> set rest" by (simp add: readBracket_None)
        with None True show ?thesis by (simp add: scan.simps badBracket_def)
      next
        case (Some p)
        obtain acc rest' where p: "p = (acc, rest')" by (cases p)
        from Some p have rb: "readBracket rest [] = Some (acc, rest')" by simp
        from readBracket_Some [OF rb]
        have acc: "acc = takeWhile (\<lambda>c. c \<noteq> CHR '']'') rest"
          and rest: "rest = acc @ CHR '']'' # rest'" by auto
        have mem: "CHR '']'' \<in> set rest" by (subst rest) simp
        show ?thesis
        proof (cases "digitsOnly (trim acc)")
          case False
          with rb True acc show ?thesis by (simp add: scan.simps badBracket_def)
        next
          case dig: True
          have nb: "\<not> badBracket rest" using dig acc mem by (simp add: badBracket_def)
          have "CHR ''['' \<notin> set acc" using dig by (rule digits_trim_no_bracket)
          then have "malformed rest = malformed (CHR '']'' # rest')"
            by (subst rest) (rule malformed_skip)
          then have m: "malformed rest = malformed (eatDot rest')"
            by (simp add: malformed_eatDot)
          have "scan (ch # rest) buf tokens
                  = scan (eatDot rest') [] (flush buf tokens @ [''['' @ trim acc @ '']''])"
            using True rb dig by (simp add: scan.simps)
          moreover have "(scan (eatDot rest') [] (flush buf tokens @ [''['' @ trim acc @ '']'']) = None)
                   = malformed (eatDot rest')"
            using 2(2) [OF notdot True rb refl refl] dig by simp
          ultimately show ?thesis using True nb m by simp
        qed
      qed
    qed
  qed
qed

lemma malformed_no_bracket: "CHR ''['' \<notin> set xs \<Longrightarrow> \<not> malformed xs"
  using malformed_skip [of xs "[]"] by simp

lemma space_no_bracket: "list_all isSpace w \<Longrightarrow> CHR ''['' \<notin> set w \<and> CHR '']'' \<notin> set w"
  by (auto simp: list_all_iff)

lemma badBracket_trailing:
  assumes "list_all isSpace w"
  shows "badBracket (u @ w) = badBracket u"
proof (cases "CHR '']'' \<in> set u")
  case True
  then have "takeWhile (\<lambda>c. c \<noteq> CHR '']'') (u @ w) = takeWhile (\<lambda>c. c \<noteq> CHR '']'') u"
    by simp
  with True show ?thesis by (simp add: badBracket_def)
next
  case False
  with space_no_bracket [OF assms] show ?thesis by (simp add: badBracket_def)
qed

lemma malformed_trailing:
  assumes "list_all isSpace w"
  shows "malformed (u @ w) = malformed u"
proof (induction u)
  case Nil
  show ?case using malformed_no_bracket space_no_bracket [OF assms] by simp
next
  case (Cons c u)
  then show ?case by (simp add: badBracket_trailing [OF assms])
qed

lemma malformed_trim: "malformed (trim s) = malformed s"
proof -
  obtain l r where s: "s = l @ trim s @ r" and l: "list_all isSpace l" and r: "list_all isSpace r"
    using trim_split by blast
  have "malformed s = malformed (l @ (trim s @ r))" using s by simp
  also have "\<dots> = malformed (trim s @ r)"
    using space_no_bracket [OF l] by (simp add: malformed_skip)
  also have "\<dots> = malformed (trim s)" by (rule malformed_trailing [OF r])
  finally show ?thesis by simp
qed

lemma malformed_strip:
  "c \<noteq> CHR ''['' \<Longrightarrow> malformed (if startsWith s [c] then drop 1 s else s) = malformed s"
  by (cases s) (auto simp: startsWith_def)

lemma parseJsonPath_None: "parseJsonPath s = None \<longleftrightarrow> malformed s"
proof (cases "s = []")
  case True
  then show ?thesis by (simp add: parseJsonPath_def)
next
  case False
  then show ?thesis
    by (simp add: parseJsonPath_def Let_def scan_None malformed_strip malformed_trim)
qed

lemma idxTok_iff: "idxTok t \<longleftrightarrow> (\<exists>ds. digitsOnly ds \<and> t = ''['' @ ds @ '']'')"
proof
  assume "idxTok t"
  then obtain cs where t: "t = CHR ''['' # cs" and ne: "cs \<noteq> []"
    and l: "last cs = CHR '']''" and d: "digitsOnly (butlast cs)"
    by (cases t) (auto simp: idxTok_def)
  from ne l have "cs = butlast cs @ '']''" by (metis append_butlast_last_id)
  with t d show "\<exists>ds. digitsOnly ds \<and> t = ''['' @ ds @ '']''" by auto
next
  assume "\<exists>ds. digitsOnly ds \<and> t = ''['' @ ds @ '']''"
  then show "idxTok t" by (auto simp: idxTok_def)
qed

lemma goodTok_flush:
  "sepFree buf \<Longrightarrow> list_all goodTok toks \<Longrightarrow> list_all goodTok (flush buf toks)"
  by (simp add: flush_def goodTok_def keyTok_def)

lemma scan_good:
  "scan s buf toks = Some out \<Longrightarrow> sepFree buf \<Longrightarrow> list_all goodTok toks \<Longrightarrow> list_all goodTok out"
proof (induction s buf toks rule: scan.induct)
  case (1 buf tokens)
  then show ?case using goodTok_flush [of buf tokens] by (auto simp: scan.simps)
next
  case (2 ch rest buf tokens)
  show ?case
  proof (cases "ch = CHR ''.''")
    case True
    with 2(4) have "scan rest [] (flush buf tokens) = Some out" by (simp add: scan.simps)
    from 2(1) [OF True this] 2(5,6) show ?thesis by (simp add: goodTok_flush sepFree_def)
  next
    case notdot: False
    show ?thesis
    proof (cases "ch = CHR ''[''")
      case False
      with notdot 2(4) have "scan rest (buf @ [ch]) tokens = Some out" by (simp add: scan.simps)
      from 2(3) [OF notdot False this] 2(5,6) notdot False show ?thesis by (simp add: sepFree_def)
    next
      case True
      from 2(4) True obtain acc rest' where rb: "readBracket rest [] = Some (acc, rest')"
        by (cases "readBracket rest []") (auto simp: scan.simps)
      from 2(4) True rb have dig: "digitsOnly (trim acc)"
        by (auto simp: scan.simps Let_def split: if_splits)
      with 2(4) True rb
      have sc: "scan (eatDot rest') [] (flush buf tokens @ [''['' @ trim acc @ '']'']) = Some out"
        by (simp add: scan.simps)
      have "goodTok (''['' @ trim acc @ '']'')"
        using dig by (auto simp: goodTok_def idxTok_iff)
      then have "list_all goodTok (flush buf tokens @ [''['' @ trim acc @ '']''])"
        using 2(5,6) by (simp add: goodTok_flush)
      moreover have "sepFree []" by (simp add: sepFree_def)
      ultimately show ?thesis
        using 2(2) [OF notdot True rb refl refl _ sc] dig by simp
    qed
  qed
qed

lemma parseJsonPath_good:
  assumes "parseJsonPath s = Some ts"
  shows "list_all goodTok ts"
proof (cases "s = []")
  case True
  with assms show ?thesis by (simp add: parseJsonPath_def)
next
  case False
  with assms obtain s' out where "scan s' [] [] = Some out" and ts: "ts = filter (\<lambda>t. t \<noteq> []) out"
    by (auto simp: parseJsonPath_def Let_def)
  then have "list_all goodTok out"
    using scan_good [of s' "[]" "[]" out] by (simp add: sepFree_def)
  with ts show ?thesis by (simp add: list_all_iff)
qed

lemma EKS_no_dot: "CHR ''.'' \<notin> set s \<Longrightarrow> \<not> emptyKeySegment s"
  by (induction s rule: emptyKeySegment.induct) auto

lemma EKS_append:
  "p \<noteq> [] \<Longrightarrow> last p \<noteq> CHR ''.'' \<Longrightarrow>
     emptyKeySegment (p @ s) = (emptyKeySegment p \<or> emptyKeySegment s)"
proof (induction p rule: emptyKeySegment.induct)
  case 1
  then show ?case by simp
next
  case (2 c)
  then show ?case by (cases s) auto
next
  case (3 c d cs)
  then show ?case by simp
qed

lemma EKS_ends_dot: "s \<noteq> [] \<Longrightarrow> last s = CHR ''.'' \<Longrightarrow> emptyKeySegment s"
  by (induction s rule: emptyKeySegment.induct) (auto split: if_splits)

lemma makeChildPath_OK:
  assumes "pathOK p" and "goodTok t"
  shows "pathOK (makeChildPath p t)"
proof -
  from assms(2) consider (key) "keyTok t" | (idx) "idxTok t" by (auto simp: goodTok_def)
  then show ?thesis
  proof cases
    case key
    then obtain c cs where t: "t = c # cs" and c: "c \<noteq> CHR ''.''" "c \<noteq> CHR ''[''"
      and cs: "CHR ''.'' \<notin> set cs"
      by (cases t) (auto simp: keyTok_def sepFree_def)
    have m: "makeChildPath p t = p @ (CHR ''.'' # c # cs)"
      using assms(1) t c by (simp add: makeChildPath_def startsWith_def pathOK_def)
    have "\<not> emptyKeySegment (CHR ''.'' # c # cs)"
      using c cs EKS_no_dot [of "c # cs"] by simp
    moreover have "last (p @ (CHR ''.'' # c # cs)) \<noteq> CHR ''.''"
      using c cs by (cases cs rule: rev_cases) auto
    ultimately show ?thesis
      using assms(1) unfolding m pathOK_def by (simp add: EKS_append)
  next
    case idx
    then obtain ds where ds: "digitsOnly ds" and t: "t = ''['' @ ds @ '']''"
      by (auto simp: idxTok_iff)
    have m: "makeChildPath p t = p @ t"
      using assms(1) t by (simp add: makeChildPath_def startsWith_def pathOK_def)
    have "CHR ''.'' \<notin> set t"
      using ds t by (auto simp: digitsOnly_def list_all_iff)
    then have "\<not> emptyKeySegment t" by (rule EKS_no_dot)
    moreover have "last (p @ t) \<noteq> CHR ''.''" using t by simp
    ultimately show ?thesis
      using assms(1) unfolding m pathOK_def by (simp add: EKS_append)
  qed
qed

lemma fold_makeChildPath_OK:
  "pathOK p \<Longrightarrow> list_all goodTok ts \<Longrightarrow> pathOK (fold (\<lambda>t path. makeChildPath path t) ts p)"
  by (induction ts arbitrary: p) (auto simp: makeChildPath_OK)

lemma root_OK: "pathOK ''root''"
  by (simp add: pathOK_def)

section \<open>Tokenizer failure\<close>

lemma findNodeByPath_malformed: "malformed s \<Longrightarrow> findNodeByPath ns s = None"
  by (simp add: findNodeByPath_def parseJsonPath_None [symmetric])

lemma normalizeQuery_empty_fine: "\<not> malformed (normalizeQuery [])"
  by (simp add: normalizeQuery_def startsWith_def includes_str_def)

lemma doSearch_malformed:
  assumes "malformed (normalizeQuery (trim (query st)))"
  shows "doSearch st = st\<lparr> highlightId := [], matchMsg := ''No match found'' \<rparr>"
proof -
  from assms normalizeQuery_empty_fine have "trim (query st) \<noteq> []" by auto
  with assms show ?thesis
    by (simp add: doSearch_def findNodeByPath_malformed)
qed

lemma items_a_malformed: "malformed (normalizeQuery (trim ''items[a]''))"
  by code_simp

text \<open>
  C5.  \<open>parseJsonPath\<close> fails exactly on a malformed path: one with a bracket segment
  that is not closed or whose trimmed content is not a string of digits.  On such a
  path \<open>findNodeByPath\<close> returns \<open>null\<close>, and \<open>doSearch\<close> reports that nothing matched and
  clears the highlight; so it does for the query \<open>items[a]\<close>, whatever the graph.
\<close>

theorem tokenizer_failure:
  "(parseJsonPath s = None \<longleftrightarrow> malformed s)
   \<and> (malformed s \<longrightarrow> findNodeByPath ns s = None)
   \<and> (malformed (normalizeQuery (trim (query st))) \<longrightarrow>
        doSearch st = st\<lparr> highlightId := [], matchMsg := ''No match found'' \<rparr>)
   \<and> (query st = ''items[a]'' \<longrightarrow>
        doSearch st = st\<lparr> highlightId := [], matchMsg := ''No match found'' \<rparr>)"
  using parseJsonPath_None [of s] findNodeByPath_malformed [of s ns]
    doSearch_malformed [of st] items_a_malformed
  by auto

theorem tokenizer_failure_witness:
  "malformed ''a[1''
   \<and> parseJsonPath ''a[1'' = None
   \<and> findNodeByPath (fst (buildFlowFromJSON scenarioB)) ''a[1'' = None
   \<and> query (showing scenarioB ''items[a]'') = ''items[a]''
   \<and> doSearch (showing scenarioB ''items[a]'')
       = (showing scenarioB ''items[a]'')\<lparr> highlightId := [], matchMsg := ''No match found'' \<rparr>"
proof -
  have m: "malformed ''a[1''" by code_simp
  have q: "query (showing scenarioB ''items[a]'') = ''items[a]''" by (simp add: showing_def)
  from tokenizer_failure [of "''a[1''" "fst (buildFlowFromJSON scenarioB)"
      "showing scenarioB ''items[a]''"] m q
  show ?thesis by blast
qed

section \<open>No empty tokens\<close>

lemma goodTok_nonempty: "goodTok t \<Longrightarrow> t \<noteq> []"
  by (auto simp: goodTok_def keyTok_def idxTok_iff)

lemma scan_no_empty:
  assumes "scan s [] [] = Some out"
  shows "[] \<notin> set out"
proof -
  have "list_all goodTok out"
    using scan_good [OF assms] by (simp add: sepFree_def)
  then show ?thesis
    using goodTok_nonempty by (auto simp: list_all_iff)
qed

lemma parseJsonPath_path_OK:
  assumes "parseJsonPath q = Some ts"
  shows "pathOK (fold (\<lambda>t path. makeChildPath path t) ts ''root'')"
  using fold_makeChildPath_OK [OF root_OK parseJsonPath_good [OF assms]] .

lemma findNodeByPath_path_OK:
  assumes "findNodeByPath ns q = Some n"
  shows "pathOK (node_id n)"
proof -
  from assms obtain ts where ts: "parseJsonPath q = Some ts"
    and f: "find (\<lambda>n. node_id n = fold (\<lambda>t path. makeChildPath path t) ts ''root'') ns = Some n"
    by (auto simp: findNodeByPath_def split: option.splits)
  from f have "node_id n = fold (\<lambda>t path. makeChildPath path t) ts ''root''"
    by (auto simp: find_Some_iff)
  with parseJsonPath_path_OK [OF ts] show ?thesis by simp
qed

lemma doSearch_match_OK:
  assumes "matchMsg (doSearch st) = ''Match found''"
  shows "pathOK (highlightId (doSearch st))"
proof (cases "trim (query st) = []")
  case True
  with assms show ?thesis by (simp add: doSearch_def)
next
  case False
  show ?thesis
  proof (cases "findNodeByPath (flowNodes st) (normalizeQuery (trim (query st)))")
    case None
    with False assms show ?thesis by (simp add: doSearch_def)
  next
    case (Some n)
    with False findNodeByPath_path_OK [of "flowNodes st" _ n] show ?thesis
      by (simp add: doSearch_def)
  qed
qed

text \<open>
  C10.  Every token of a successful \<open>parseJsonPath\<close> is a non-empty string, and already
  the loop pushes no empty token.  So the path composed from the tokens has no empty key
  segment, and neither has the id of a node that \<open>findNodeByPath\<close> returns or that
  \<open>doSearch\<close> highlights: it does not end in a dot, and a node built for an empty object
  key (its id is the parent's path and a dot, such as \<open>root.\<close>) is never found.
\<close>

theorem no_empty_tokens:
  "(parseJsonPath q = Some ts \<longrightarrow>
      (\<forall>t\<in>set ts. t \<noteq> [])
      \<and> \<not> emptyKeySegment (fold (\<lambda>t path. makeChildPath path t) ts ''root''))
   \<and> (scan s [] [] = Some out \<longrightarrow> [] \<notin> set out)
   \<and> (findNodeByPath ns q = Some n \<longrightarrow>
        \<not> emptyKeySegment (node_id n) \<and> last (node_id n) \<noteq> CHR ''.'')
   \<and> (matchMsg (doSearch st) = ''Match found'' \<longrightarrow>
        \<not> emptyKeySegment (highlightId (doSearch st))
        \<and> last (highlightId (doSearch st)) \<noteq> CHR ''.'')
   \<and> (p \<noteq> [] \<and> node_id m = makeChildPath p [] \<longrightarrow> findNodeByPath ns' q' \<noteq> Some m)"
proof (intro conjI impI)
  assume p: "parseJsonPath q = Some ts"
  show "\<forall>t\<in>set ts. t \<noteq> []"
    using parseJsonPath_good [OF p] goodTok_nonempty by (auto simp: list_all_iff)
  show "\<not> emptyKeySegment (fold (\<lambda>t path. makeChildPath path t) ts ''root'')"
    using parseJsonPath_path_OK [OF p] by (simp add: pathOK_def)
next
  assume "scan s [] [] = Some out"
  then show "[] \<notin> set out" by (rule scan_no_empty)
next
  assume f: "findNodeByPath ns q = Some n"
  show "\<not> emptyKeySegment (node_id n)" "last (node_id n) \<noteq> CHR ''.''"
    using findNodeByPath_path_OK [OF f] by (simp_all add: pathOK_def)
next
  assume m: "matchMsg (doSearch st) = ''Match found''"
  show "\<not> emptyKeySegment (highlightId (doSearch st))"
    "last (highlightId (doSearch st)) \<noteq> CHR ''.''"
    using doSearch_match_OK [OF m] by (simp_all add: pathOK_def)
next
  assume e: "p \<noteq> [] \<and> node_id m = makeChildPath p []"
  then have "last (node_id m) = CHR ''.''"
    by (simp add: makeChildPath_def startsWith_def)
  then show "findNodeByPath ns' q' \<noteq> Some m"
    using findNodeByPath_path_OK [of ns' q' m] by (auto simp: pathOK_def)
qed

lemma emptyKeyDoc_ids: "map node_id (fst (buildFlowFromJSON emptyKeyDoc)) = [''root'', ''root.'']"
  by code_simp

lemma dots_parse: "parseJsonPath ''items..[0].'' = Some [''items'', ''[0]'']"
  by code_simp

lemma emptyKeyDoc_node:
  "node_id (fst (buildFlowFromJSON emptyKeyDoc) ! 1) = makeChildPath ''root'' []"
  by code_simp

lemma dots_scan: "scan ''a..b.'' [] [] = Some [''a'', ''b'']"
  by code_simp

lemma scenarioB_search:
  "findNodeByPath (fst (buildFlowFromJSON scenarioB)) ''items..[0].''
     = Some (fst (buildFlowFromJSON scenarioB) ! 2)
   \<and> matchMsg (doSearch (showing scenarioB ''items..[0].'')) = ''Match found''"
  by code_simp

theorem no_empty_tokens_witness:
  "parseJsonPath ''items..[0].'' = Some [''items'', ''[0]'']
   \<and> \<not> emptyKeySegment (fold (\<lambda>t path. makeChildPath path t) [''items'', ''[0]''] ''root'')
   \<and> scan ''a..b.'' [] [] = Some [''a'', ''b'']
   \<and> [] \<notin> set [''a'', ''b'']
   \<and> findNodeByPath (fst (buildFlowFromJSON scenarioB)) ''items..[0].''
       = Some (fst (buildFlowFromJSON scenarioB) ! 2)
   \<and> last (node_id (fst (buildFlowFromJSON scenarioB) ! 2)) \<noteq> CHR ''.''
   \<and> matchMsg (doSearch (showing scenarioB ''items..[0].'')) = ''Match found''
   \<and> last (highlightId (doSearch (showing scenarioB ''items..[0].''))) \<noteq> CHR ''.''
   \<and> node_id (fst (buildFlowFromJSON emptyKeyDoc) ! 1) = makeChildPath ''root'' []
   \<and> findNodeByPath (fst (buildFlowFromJSON emptyKeyDoc)) ''.''
        \<noteq> Some (fst (buildFlowFromJSON emptyKeyDoc) ! 1)"
proof -
  note T = no_empty_tokens [of "''items..[0].''" "[''items'', ''[0]'']" "''a..b.''" "[''a'', ''b'']"
      "fst (buildFlowFromJSON scenarioB)" "fst (buildFlowFromJSON scenarioB) ! 2"
      "showing scenarioB ''items..[0].''" "''root''" "fst (buildFlowFromJSON emptyKeyDoc) ! 1"
      "fst (buildFlowFromJSON emptyKeyDoc)" "''.''"]
  note S = scenarioB_search
  have 1: "\<not> emptyKeySegment (fold (\<lambda>t path. makeChildPath path t) [''items'', ''[0]''] ''root'')"
    using mp [OF conjunct1 [OF T] dots_parse] by (rule conjunct2)
  have 2: "[] \<notin> set [''a'', ''b'']"
    using mp [OF conjunct1 [OF conjunct2 [OF T]] dots_scan] .
  have 3: "last (node_id (fst (buildFlowFromJSON scenarioB) ! 2)) \<noteq> CHR ''.''"
    using mp [OF conjunct1 [OF conjunct2 [OF conjunct2 [OF T]]] conjunct1 [OF S]]
    by (rule conjunct2)
  have 4: "last (highlightId (doSearch (showing scenarioB ''items..[0].''))) \<noteq> CHR ''.''"
    using mp [OF conjunct1 [OF conjunct2 [OF conjunct2 [OF conjunct2 [OF T]]]] conjunct2 [OF S]]
    by (rule conjunct2)
  have r: "''root'' \<noteq> []" by simp
  have 5: "findNodeByPath (fst (buildFlowFromJSON emptyKeyDoc)) ''.''
        \<noteq> Some (fst (buildFlowFromJSON emptyKeyDoc) ! 1)"
    using mp [OF conjunct2 [OF conjunct2 [OF conjunct2 [OF conjunct2 [OF T]]]]
        conjI [OF r emptyKeyDoc_node]] .
  show ?thesis
    using dots_parse 1 dots_scan 2 conjunct1 [OF S] 3 conjunct2 [OF S] 4 emptyKeyDoc_node 5
    by (intro conjI)
qed

section \<open>The traversal as a list of visits\<close>

lemma compose_Cons [simp]: "compose p (t # ts) = compose (makeChildPath p t) ts"
  by (simp add: compose_def)

lemma compose_Nil [simp]: "compose p [] = p"
  by (simp add: compose_def)

lemma makeChildPath_nonempty [simp]: "p \<noteq> [] \<Longrightarrow> makeChildPath p t \<noteq> []"
  by (simp add: makeChildPath_def)

lemma enterAt_Cons:
  "p \<noteq> [] \<Longrightarrow> enterAt p d par kl (t # ts, sv) = enterAt (makeChildPath p t) (Suc d) (Some p) t (ts, sv)"
  by (simp add: enterAt_def)

lemma fold_enterAt_map:
  "p \<noteq> [] \<Longrightarrow>
   fold (enterAt p d par kl) (map (\<lambda>(ts, sv). (t # ts, sv)) xs) b
     = fold (enterAt (makeChildPath p t) (Suc d) (Some p) t) xs b"
  by (induction xs arbitrary: b) (auto simp: enterAt_Cons)

lemma traverse_trace:
  "(path \<noteq> [] \<longrightarrow> traverse v path depth parentId keyLabel b
       = fold (enterAt path depth parentId keyLabel) (subvalues v) b)"
  "(path \<noteq> [] \<longrightarrow> pid = path \<longrightarrow> 0 < depth' \<longrightarrow> forEachKey kvs path depth' pid b
       = fold (enterAt path (depth' - 1) par kl) (subvaluesKeys kvs) b)"
  "(path \<noteq> [] \<longrightarrow> pid = path \<longrightarrow> 0 < depth' \<longrightarrow> forEachItem items idx path depth' pid b
       = fold (enterAt path (depth' - 1) par kl) (subvaluesItems items idx) b)"
proof (induction v path depth parentId keyLabel b and kvs path depth' pid b
    and items idx path depth' pid b
    arbitrary: and par kl and par kl rule: traverse_forEachKey_forEachItem.induct)
  case (1 kvs path depth parentId keyLabel b)
  then show ?case by (simp add: orElse_def enterAt_def)
next
  case (2 items path depth parentId keyLabel b)
  then show ?case by (simp add: orElse_def enterAt_def)
next
  case (3 lit path depth parentId keyLabel b)
  then show ?case by (simp add: enterAt_def)
next
  case (4 path depth pid b)
  then show ?case by simp
next
  case (5 kv kvs path depth pid b)
  show ?case
  proof (intro impI)
    assume p: "path \<noteq> []" and e: "pid = path" and d: "0 < depth"
    have t: "traverse (snd kv) (makeChildPath path (fst kv)) depth (Some pid) (fst kv) b
           = fold (enterAt (makeChildPath path (fst kv)) depth (Some pid) (fst kv))
               (subvalues (snd kv)) b"
      using 5(1) p by simp
    have f: "forEachKey kvs path depth pid
               (traverse (snd kv) (makeChildPath path (fst kv)) depth (Some pid) (fst kv) b)
           = fold (enterAt path (depth - 1) par kl) (subvaluesKeys kvs)
               (traverse (snd kv) (makeChildPath path (fst kv)) depth (Some pid) (fst kv) b)"
      using 5(2) p e d by simp
    obtain n where n: "depth = Suc n" using d by (cases depth) auto
    have "forEachKey (kv # kvs) path depth pid b
        = forEachKey kvs path depth pid
            (traverse (snd kv) (makeChildPath path (fst kv)) depth (Some pid) (fst kv) b)"
      by simp
    also note f
    also note t
    finally show "forEachKey (kv # kvs) path depth pid b
            = fold (enterAt path (depth - 1) par kl) (subvaluesKeys (kv # kvs)) b"
      by (simp add: fold_enterAt_map [OF p] n e)
  qed
next
  case (6 idx path depth pid b)
  then show ?case by simp
next
  case (7 item items idx path depth pid b)
  show ?case
  proof (intro impI)
    assume p: "path \<noteq> []" and e: "pid = path" and d: "0 < depth"
    have t: "traverse item (makeChildPath path (''['' @ toString idx @ '']'')) depth (Some pid)
               (''['' @ toString idx @ '']'') b
           = fold (enterAt (makeChildPath path (''['' @ toString idx @ '']'')) depth (Some pid)
                     (''['' @ toString idx @ '']''))
               (subvalues item) b"
      using 7(1) p by simp
    have f: "forEachItem items (idx + 1) path depth pid
               (traverse item (makeChildPath path (''['' @ toString idx @ '']'')) depth (Some pid)
                  (''['' @ toString idx @ '']'') b)
           = fold (enterAt path (depth - 1) par kl) (subvaluesItems items (idx + 1))
               (traverse item (makeChildPath path (''['' @ toString idx @ '']'')) depth (Some pid)
                  (''['' @ toString idx @ '']'') b)"
      using 7(2) p e d by simp
    obtain n where n: "depth = Suc n" using d by (cases depth) auto
    have "forEachItem (item # items) idx path depth pid b
        = forEachItem items (idx + 1) path depth pid
            (traverse item (makeChildPath path (''['' @ toString idx @ '']'')) depth (Some pid)
               (''['' @ toString idx @ '']'') b)"
      by simp
    also note f
    also note t
    finally show "forEachItem (item # items) idx path depth pid b
            = fold (enterAt path (depth - 1) par kl) (subvaluesItems (item # items) idx) b"
      by (simp add: fold_enterAt_map [OF p] n e)
  qed
qed

lemma cnt_update: "cnt (AList.update d c al) k = (if k = d then c else cnt al k)"
  by (simp add: cnt_def update_conv')

lemma enter_counters:
  "leafOrderAtDepth (enter sv path d par kl b)
     = AList.update d (cnt (leafOrderAtDepth b) d + 1) (leafOrderAtDepth b)"
  by (simp add: enter_def addNode_def Let_def cnt_def split: option.splits)

lemma enter_nodes:
  "\<exists>n. nodes (enter sv path d par kl b) = nodes b @ [n]
     \<and> node_id n = orElse path kl
     \<and> pos_x n = int (cnt (leafOrderAtDepth b) d) * 260
     \<and> pos_y n = int d * 110"
  by (simp add: enter_def addNode_def Let_def cnt_def X_STEP_def Y_STEP_def split: option.splits)

lemma enterAt_counters:
  "leafOrderAtDepth (enterAt p d0 par kl x b)
     = AList.update (d0 + length (fst x)) (cnt (leafOrderAtDepth b) (d0 + length (fst x)) + 1)
         (leafOrderAtDepth b)"
  by (simp add: enterAt_def enter_counters)

lemma enterAt_nodes:
  "\<exists>n. nodes (enterAt p d0 par kl x b) = nodes b @ [n]
     \<and> node_id n = orElse (compose p (fst x)) (if fst x = [] then kl else last (fst x))
     \<and> pos_x n = int (cnt (leafOrderAtDepth b) (d0 + length (fst x))) * 260
     \<and> pos_y n = int (d0 + length (fst x)) * 110"
  unfolding enterAt_def by (rule enter_nodes)

lemma fold_counters:
  "cnt (leafOrderAtDepth (fold (enterAt p d0 par kl) xs b)) k
     = cnt (leafOrderAtDepth b) k + count_list (map (\<lambda>x. d0 + length (fst x)) xs) k"
proof (induction xs arbitrary: k rule: rev_induct)
  case Nil
  then show ?case by simp
next
  case (snoc x xs)
  then show ?case
    by (simp add: enterAt_counters cnt_update)
qed

lemma fold_positions:
  "map (\<lambda>n. (pos_x n, pos_y n)) (nodes (fold (enterAt p d0 par kl) xs b))
     = map (\<lambda>n. (pos_x n, pos_y n)) (nodes b)
       @ map (slot (leafOrderAtDepth b) (map (\<lambda>x. d0 + length (fst x)) xs)) [0..<length xs]"
proof (induction xs rule: rev_induct)
  case Nil
  then show ?case by simp
next
  case (snoc x xs)
  let ?f = "enterAt p d0 par kl"
  let ?ds = "map (\<lambda>x. d0 + length (fst x)) xs"
  let ?d = "d0 + length (fst x)"
  obtain n where n: "nodes (?f x (fold ?f xs b)) = nodes (fold ?f xs b) @ [n]"
    and x: "pos_x n = int (cnt (leafOrderAtDepth (fold ?f xs b)) ?d) * 260"
    and y: "pos_y n = int ?d * 110"
    using enterAt_nodes by blast
  have new: "(pos_x n, pos_y n) = slot (leafOrderAtDepth b) (?ds @ [?d]) (length xs)"
    by (simp add: slot_def x y fold_counters nth_append)
  have old: "map (slot (leafOrderAtDepth b) (?ds @ [?d])) [0..<length xs]
           = map (slot (leafOrderAtDepth b) ?ds) [0..<length xs]"
    by (rule map_cong) (auto simp: slot_def nth_append)
  have "nodes (fold ?f (xs @ [x]) b) = nodes (fold ?f xs b) @ [n]"
    using n by simp
  then show ?case
    using snoc.IH new old by simp
qed

lemma fold_distinct_keys:
  "distinct (map fst (leafOrderAtDepth b)) \<Longrightarrow>
   distinct (map fst (leafOrderAtDepth (fold (enterAt p d0 par kl) xs b)))"
  by (induction xs rule: rev_induct) (simp_all add: enterAt_counters distinct_update)

lemma fold_dom:
  "map_of (leafOrderAtDepth (fold (enterAt p d0 par kl) xs b)) k = None
     \<longleftrightarrow> map_of (leafOrderAtDepth b) k = None \<and> k \<notin> set (map (\<lambda>x. d0 + length (fst x)) xs)"
  by (induction xs rule: rev_induct) (auto simp: enterAt_counters update_conv')

section \<open>The layout\<close>

lemma subvalues_nonempty: "subvalues v \<noteq> []"
  by (cases v) auto

lemma depths_nonempty: "depths v \<noteq> []"
  by (simp add: depths_def subvalues_nonempty)

lemma traverse_root:
  "traverse v ''root'' 0 None ''root'' b = fold (enterAt ''root'' 0 None ''root'') (subvalues v) b"
  using traverse_trace(1) [of "''root''" v 0 None "''root''" b] by simp

lemma root_counters:
  "map_of (leafOrderAtDepth (traverse v ''root'' 0 None ''root'' emptyBuilder)) k
     = (if k \<in> set (depths v) then Some (count_list (depths v) k) else None)"
proof -
  let ?al = "leafOrderAtDepth (traverse v ''root'' 0 None ''root'' emptyBuilder)"
  have dom: "map_of ?al k = None \<longleftrightarrow> k \<notin> set (depths v)"
    unfolding traverse_root using fold_dom [of "''root''" 0 None "''root''" "subvalues v" emptyBuilder k]
    by (simp add: emptyBuilder_def depths_def)
  have c: "cnt ?al k = count_list (depths v) k"
    unfolding traverse_root using fold_counters [of "''root''" 0 None "''root''" "subvalues v" emptyBuilder k]
    by (simp add: emptyBuilder_def depths_def cnt_def)
  show ?thesis
  proof (cases "k \<in> set (depths v)")
    case True
    with dom obtain y where y: "map_of ?al k = Some y" by auto
    with c have "y = count_list (depths v) k" by (simp add: cnt_def)
    with y True show ?thesis by simp
  next
    case False
    with dom show ?thesis by simp
  qed
qed

lemma root_maxCols:
  "maxCols (leafOrderAtDepth (traverse v ''root'' 0 None ''root'' emptyBuilder))
     = Max (count_list (depths v) ` set (depths v))"
proof -
  let ?al = "leafOrderAtDepth (traverse v ''root'' 0 None ''root'' emptyBuilder)"
  have "distinct (map fst ?al)"
    unfolding traverse_root by (rule fold_distinct_keys) (simp add: emptyBuilder_def)
  then have "snd ` set ?al = ran (map_of ?al)" by (simp add: ran_distinct)
  also have "\<dots> = count_list (depths v) ` set (depths v)"
    by (auto simp: ran_def root_counters split: if_splits)
  finally have s: "set (map snd ?al) = count_list (depths v) ` set (depths v)" by simp
  obtain d where "d \<in> set (depths v)" using depths_nonempty [of v] by (cases "depths v") auto
  then have "map_of ?al d \<noteq> None" by (simp add: root_counters)
  then have "?al \<noteq> []" by auto
  then show ?thesis unfolding maxCols_def s by simp
qed

lemma root_positions:
  "map (\<lambda>n. (pos_x n, pos_y n)) (nodes (traverse v ''root'' 0 None ''root'' emptyBuilder))
     = map (\<lambda>i. (int (count_list (take i (depths v)) (depths v ! i)) * 260, int (depths v ! i) * 110))
         [0..<length (depths v)]"
  unfolding traverse_root
  using fold_positions [of "''root''" 0 None "''root''" "subvalues v" emptyBuilder]
  by (simp add: emptyBuilder_def depths_def slot_def cnt_def)

text \<open>
  C4.  Let \<open>ds\<close> be the depths of the values in depth-first pre-order.  The traversal
  gives the \<open>i\<close>-th node \<open>x = c * 260\<close> and \<open>y = d * 110\<close>, where \<open>d = ds ! i\<close> is its depth
  and \<open>c\<close> is the number of earlier nodes of the same depth, whatever their parents.
  After it the counter of a depth is the number of nodes of that depth, \<open>maxCols\<close> is the
  largest counter, and \<open>buildFlowFromJSON\<close> returns every node with
  \<open>(maxCols - 1) * 260 / 2\<close> subtracted from its \<open>x\<close> and its \<open>y\<close> unchanged.
\<close>

theorem layout_formula:
  assumes "ds = depths v"
    and "b = traverse v ''root'' 0 None ''root'' \<lparr> nodes = [], edges = [], leafOrderAtDepth = [] \<rparr>"
    and "cols = Max (count_list ds ` set ds)"
    and "i < length ds"
  shows "length (nodes b) = length ds
    \<and> length (fst (buildFlowFromJSON v)) = length ds
    \<and> pos_x (nodes b ! i) = int (count_list (take i ds) (ds ! i)) * 260
    \<and> pos_y (nodes b ! i) = int (ds ! i) * 110
    \<and> (\<forall>d. map_of (leafOrderAtDepth b) d = (if d \<in> set ds then Some (count_list ds d) else None))
    \<and> maxCols (leafOrderAtDepth b) = cols
    \<and> pos_x (fst (buildFlowFromJSON v) ! i)
        = int (count_list (take i ds) (ds ! i)) * 260 - ((int cols - 1) * 260) div 2
    \<and> pos_y (fst (buildFlowFromJSON v) ! i) = int (ds ! i) * 110"
proof -
  have b: "b = traverse v ''root'' 0 None ''root'' emptyBuilder"
    using assms(2) by (simp add: emptyBuilder_def)
  have pos: "map (\<lambda>n. (pos_x n, pos_y n)) (nodes b)
     = map (\<lambda>i. (int (count_list (take i ds) (ds ! i)) * 260, int (ds ! i) * 110)) [0..<length ds]"
    unfolding b assms(1) by (rule root_positions)
  have "length (map (\<lambda>n. (pos_x n, pos_y n)) (nodes b))
      = length (map (\<lambda>i. (int (count_list (take i ds) (ds ! i)) * 260, int (ds ! i) * 110))
          [0..<length ds])"
    by (simp only: pos)
  then have len: "length (nodes b) = length ds" by simp
  have "map (\<lambda>n. (pos_x n, pos_y n)) (nodes b) ! i
      = map (\<lambda>i. (int (count_list (take i ds) (ds ! i)) * 260, int (ds ! i) * 110))
          [0..<length ds] ! i"
    by (simp only: pos)
  with len assms(4)
  have "(pos_x (nodes b ! i), pos_y (nodes b ! i))
      = (int (count_list (take i ds) (ds ! i)) * 260, int (ds ! i) * 110)"
    by simp
  then have xy: "pos_x (nodes b ! i) = int (count_list (take i ds) (ds ! i)) * 260"
    "pos_y (nodes b ! i) = int (ds ! i) * 110"
    by simp_all
  have mc: "maxCols (leafOrderAtDepth b) = cols"
    unfolding b assms(1,3) by (rule root_maxCols)
  have cs: "\<forall>d. map_of (leafOrderAtDepth b) d = (if d \<in> set ds then Some (count_list ds d) else None)"
    unfolding b assms(1) by (simp add: root_counters)
  have build: "fst (buildFlowFromJSON v)
      = map (\<lambda>n. n\<lparr> pos_x := pos_x n - centerX (leafOrderAtDepth b) \<rparr>) (nodes b)"
    by (simp add: buildFlowFromJSON_def Let_def assms(2))
  have fx: "pos_x (fst (buildFlowFromJSON v) ! i)
      = int (count_list (take i ds) (ds ! i)) * 260 - ((int cols - 1) * 260) div 2"
    using len assms(4) xy(1) mc by (simp add: build centerX_def X_STEP_def)
  have fy: "pos_y (fst (buildFlowFromJSON v) ! i) = int (ds ! i) * 110"
    using len assms(4) xy(2) by (simp add: build)
  show ?thesis
    using len xy mc cs fx fy by (simp add: build)
qed

lemma layoutDoc_depths: "[0, 1, 2, 2, 1] = depths layoutDoc"
  by code_simp

theorem layout_formula_witness:
  "pos_x (fst (buildFlowFromJSON layoutDoc) ! 4) = 130
   \<and> pos_y (fst (buildFlowFromJSON layoutDoc) ! 4) = 110
   \<and> length (fst (buildFlowFromJSON layoutDoc)) = 5"
proof -
  have c: "2 = Max (count_list [0, 1, 2, 2, 1] ` set [0, 1, 2, 2, 1::nat])" by simp
  have i: "4 < length [0, 1, 2, 2, 1::nat]" by simp
  from layout_formula [OF layoutDoc_depths refl c i]
  show ?thesis by simp
qed

section \<open>Node ids and edges of the graph\<close>

lemma compose_nonempty [simp]: "p \<noteq> [] \<Longrightarrow> compose p ts \<noteq> []"
  by (induction ts arbitrary: p) auto

lemma compose_snoc: "compose p (ts @ [t]) = makeChildPath (compose p ts) t"
  by (simp add: compose_def)

lemma enter_edges:
  "edges (enter sv path d par kl b)
     = edges b @ (case par of None \<Rightarrow> []
                  | Some q \<Rightarrow> if q \<noteq> [] then
                      [\<lparr> edge_id = q @ ''->'' @ orElse path kl, source = q, target = orElse path kl \<rparr>]
                    else [])"
  by (simp add: enter_def addNode_def Let_def split: option.splits)

lemma fold_ids:
  assumes "p \<noteq> []"
  shows "map node_id (nodes (fold (enterAt p d0 par kl) xs b))
     = map node_id (nodes b) @ map (\<lambda>x. compose p (fst x)) xs"
proof (induction xs rule: rev_induct)
  case Nil
  then show ?case by simp
next
  case (snoc x xs)
  obtain n where n: "nodes (enterAt p d0 par kl x (fold (enterAt p d0 par kl) xs b))
        = nodes (fold (enterAt p d0 par kl) xs b) @ [n]"
    and i: "node_id n = orElse (compose p (fst x)) (if fst x = [] then kl else last (fst x))"
    using enterAt_nodes by blast
  have "node_id n = compose p (fst x)"
    using i assms by (simp add: orElse_def)
  with n snoc.IH show ?case by simp
qed

lemma enterAt_edges:
  assumes "p \<noteq> []"
  shows "edges (enterAt p d0 None kl x b)
     = edges b @ (if fst x = [] then [] else [edgeOf p (fst x)])"
  using assms by (simp add: enterAt_def enter_edges edgeOf_def orElse_def)

lemma fold_edges:
  assumes "p \<noteq> []"
  shows "edges (fold (enterAt p d0 None kl) xs b)
     = edges b @ map (edgeOf p) (filter (\<lambda>ts. ts \<noteq> []) (map fst xs))"
  by (induction xs rule: rev_induct) (simp_all add: enterAt_edges [OF assms])

lemma build_ids:
  "map node_id (fst (buildFlowFromJSON v)) = map (compose ''root'') (paths v)"
proof -
  have "map node_id (fst (buildFlowFromJSON v))
      = map node_id (nodes (traverse v ''root'' 0 None ''root'' emptyBuilder))"
    by (simp add: buildFlowFromJSON_def Let_def emptyBuilder_def comp_def)
  also have "\<dots> = map (compose ''root'') (paths v)"
    unfolding traverse_root using fold_ids [of "''root''" 0 None "''root''" "subvalues v" emptyBuilder]
    by (simp add: emptyBuilder_def paths_def comp_def)
  finally show ?thesis .
qed

lemma build_edges:
  "snd (buildFlowFromJSON v) = map (edgeOf ''root'') (filter (\<lambda>ts. ts \<noteq> []) (paths v))"
proof -
  have "snd (buildFlowFromJSON v) = edges (traverse v ''root'' 0 None ''root'' emptyBuilder)"
    by (simp add: buildFlowFromJSON_def Let_def emptyBuilder_def)
  also have "\<dots> = map (edgeOf ''root'') (filter (\<lambda>ts. ts \<noteq> []) (paths v))"
    unfolding traverse_root using fold_edges [of "''root''" 0 "''root''" "subvalues v" emptyBuilder]
    by (simp add: emptyBuilder_def paths_def)
  finally show ?thesis .
qed

lemma digit_code: "n < 10 \<Longrightarrow> of_char (''0123456789'' ! n) = 48 + n"
  by (auto simp: less_Suc_eq eval_nat_numeral)

lemma fromDigits_toString: "fromDigits (toString n) = n"
proof (induction n rule: toString.induct)
  case (1 n)
  show ?case
  proof (cases "n < 10")
    case True
    then show ?thesis
      by (subst toString.simps) (simp add: fromDigits_def digit_code)
  next
    case False
    have m: "n mod 10 < 10" by simp
    from False 1 have "fromDigits (toString (n div 10)) = n div 10" by simp
    with False show ?thesis
      by (subst toString.simps) (simp add: fromDigits_def digit_code [OF m])
  qed
qed

lemma toString_inj: "toString i = toString j \<Longrightarrow> i = j"
  by (metis fromDigits_toString)

lemma indexKey_inj: "indexKey i = indexKey j \<Longrightarrow> i = j"
  by (simp add: indexKey_def toString_inj)

lemma toString_digits: "digitsOnly (toString n)"
proof (induction n rule: toString.induct)
  case (1 n)
  have d: "isDigit (''0123456789'' ! k)" if "k < 10" for k
    unfolding isDigit_def using that by (intro nth_mem) simp
  show ?case
  proof (cases "n < 10")
    case True
    then show ?thesis
      by (subst toString.simps) (simp add: digitsOnly_def d)
  next
    case False
    with 1 have "digitsOnly (toString (n div 10))" by simp
    with False show ?thesis
      by (subst toString.simps) (simp add: digitsOnly_def d)
  qed
qed

lemma fst_map_cons: "map fst (map (\<lambda>(ts, sv). (t # ts, sv)) xs) = map ((#) t) (map fst xs)"
  by (induction xs) auto

lemma pathsKeys_Cons:
  "pathsKeys (kv # kvs) = map ((#) (fst kv)) (paths (snd kv)) @ pathsKeys kvs"
  unfolding paths_def pathsKeys_def subvaluesKeys.simps map_append fst_map_cons ..

lemma pathsItems_Cons:
  "pathsItems (item # items) idx = map ((#) (indexKey idx)) (paths item) @ pathsItems items (idx + 1)"
  unfolding paths_def pathsItems_def subvaluesItems.simps map_append fst_map_cons indexKey_def ..

lemma paths_simps:
  "paths (JObject kvs) = [] # pathsKeys kvs"
  "paths (JArray items) = [] # pathsItems items 0"
  "paths (JPrimitive lit) = [[]]"
  "pathsKeys [] = []"
  "pathsKeys (kv # kvs) = map ((#) (fst kv)) (paths (snd kv)) @ pathsKeys kvs"
  "pathsItems [] idx = []"
  "pathsItems (item # items) idx = map ((#) (indexKey idx)) (paths item) @ pathsItems items (idx + 1)"
  by (simp_all add: pathsKeys_Cons pathsItems_Cons) (simp_all add: paths_def pathsKeys_def pathsItems_def)

lemma paths_closed:
  "\<forall>ts\<in>set (paths v). ts \<noteq> [] \<longrightarrow> butlast ts \<in> set (paths v)"
  "\<forall>ts\<in>set (pathsKeys kvs). ts \<noteq> [] \<and> (butlast ts = [] \<or> butlast ts \<in> set (pathsKeys kvs))"
  "\<forall>ts\<in>set (pathsItems items idx). ts \<noteq> [] \<and> (butlast ts = [] \<or> butlast ts \<in> set (pathsItems items idx))"
proof (induction v and kvs and items idx rule: subvalues_subvaluesKeys_subvaluesItems.induct)
  case (1 kvs)
  then show ?case by (auto simp: paths_simps)
next
  case (2 items)
  then show ?case by (auto simp: paths_simps)
next
  case (3 lit)
  then show ?case by (simp add: paths_simps)
next
  case 4
  then show ?case by (simp add: paths_simps)
next
  case (5 kv kvs)
  then show ?case by (fastforce simp: paths_simps)
next
  case (6 idx)
  then show ?case by (simp add: paths_simps)
next
  case (7 item items idx)
  then show ?case by (fastforce simp: paths_simps)
qed

lemma paths_root: "\<exists>rest. paths v = [] # rest \<and> [] \<notin> set rest"
proof (cases v)
  case (JObject kvs)
  then show ?thesis using paths_closed(2) [of kvs] by (auto simp: paths_simps)
next
  case (JArray items)
  then show ?thesis using paths_closed(3) [of items 0] by (auto simp: paths_simps)
next
  case (JPrimitive lit)
  then show ?thesis by (simp add: paths_simps)
qed

lemma paths_distinct:
  "wellFormed v \<longrightarrow> distinct (paths v)"
  "distinct (map fst kvs) \<and> list_all (\<lambda>kv. wellFormed (snd kv)) kvs \<longrightarrow>
     distinct (pathsKeys kvs) \<and> (\<forall>ts\<in>set (pathsKeys kvs). hd ts \<in> fst ` set kvs)"
  "list_all wellFormed items \<longrightarrow>
     distinct (pathsItems items idx)
     \<and> (\<forall>ts\<in>set (pathsItems items idx). \<exists>i\<ge>idx. hd ts = indexKey i)"
proof (induction v and kvs and items idx rule: subvalues_subvaluesKeys_subvaluesItems.induct)
  case (1 kvs)
  then show ?case using paths_closed(2) [of kvs] by (auto simp: paths_simps)
next
  case (2 items)
  then show ?case using paths_closed(3) [of items 0] by (auto simp: paths_simps)
next
  case (3 lit)
  then show ?case by (simp add: paths_simps)
next
  case 4
  then show ?case by (simp add: paths_simps)
next
  case (5 kv kvs)
  show ?case
  proof (intro impI)
    assume a: "distinct (map fst (kv # kvs)) \<and> list_all (\<lambda>kv. wellFormed (snd kv)) (kv # kvs)"
    then have d1: "distinct (paths (snd kv))" and d2: "distinct (pathsKeys kvs)"
      and h: "\<forall>ts\<in>set (pathsKeys kvs). hd ts \<in> fst ` set kvs"
      and k: "fst kv \<notin> fst ` set kvs"
      using 5 by auto
    have "distinct (map ((#) (fst kv)) (paths (snd kv)))"
      using d1 by (simp add: distinct_map)
    moreover have "set (map ((#) (fst kv)) (paths (snd kv))) \<inter> set (pathsKeys kvs) = {}"
    proof -
      have "False" if "ts \<in> set (pathsKeys kvs)" and "hd ts = fst kv" for ts
      proof -
        from h that(1) have "hd ts \<in> fst ` set kvs" by blast
        with k that(2) show False by simp
      qed
      then show ?thesis by fastforce
    qed
    ultimately show "distinct (pathsKeys (kv # kvs))
        \<and> (\<forall>ts\<in>set (pathsKeys (kv # kvs)). hd ts \<in> fst ` set (kv # kvs))"
      using d2 h by (auto simp: paths_simps)
  qed
next
  case (6 idx)
  then show ?case by (simp add: paths_simps)
next
  case (7 item items idx)
  show ?case
  proof (intro impI)
    assume a: "list_all wellFormed (item # items)"
    then have d1: "distinct (paths item)" and d2: "distinct (pathsItems items (idx + 1))"
      and h: "\<forall>ts\<in>set (pathsItems items (idx + 1)). \<exists>i\<ge>idx + 1. hd ts = indexKey i"
      using 7 by auto
    have "distinct (map ((#) (indexKey idx)) (paths item))"
      using d1 by (simp add: distinct_map)
    moreover have "set (map ((#) (indexKey idx)) (paths item)) \<inter> set (pathsItems items (idx + 1)) = {}"
    proof -
      have "False" if "ts \<in> set (pathsItems items (idx + 1))" and "hd ts = indexKey idx" for ts
      proof -
        from h that(1) obtain i where "i \<ge> idx + 1" and "hd ts = indexKey i" by auto
        with that(2) indexKey_inj [of idx i] show False by simp
      qed
      then show ?thesis by fastforce
    qed
    moreover have "\<forall>ts\<in>set (pathsItems items (idx + 1)). \<exists>i\<ge>idx. hd ts = indexKey i"
      using h by (meson add_leD1)
    ultimately show "distinct (pathsItems (item # items) idx)
        \<and> (\<forall>ts\<in>set (pathsItems (item # items) idx). \<exists>i\<ge>idx. hd ts = indexKey i)"
      using d2 by (auto simp: paths_simps)
  qed
qed

lemma paths_tokens:
  "allKeys P v \<longrightarrow> (\<forall>ts\<in>set (paths v). list_all (builderTok P) ts)"
  "list_all (\<lambda>kv. P (fst kv) \<and> allKeys P (snd kv)) kvs \<longrightarrow>
     (\<forall>ts\<in>set (pathsKeys kvs). list_all (builderTok P) ts)"
  "list_all (allKeys P) items \<longrightarrow> (\<forall>ts\<in>set (pathsItems items idx). list_all (builderTok P) ts)"
proof (induction v and kvs and items idx rule: subvalues_subvaluesKeys_subvaluesItems.induct)
  case (5 kv kvs)
  then show ?case by (auto simp: paths_simps builderTok_def)
next
  case (7 item items idx)
  then show ?case by (auto simp: paths_simps builderTok_def)
qed (auto simp: paths_simps)

lemma makeChildPath_seg: "p \<noteq> [] \<Longrightarrow> makeChildPath p t = p @ seg t"
  by (simp add: makeChildPath_def seg_def)

lemma compose_seg: "p \<noteq> [] \<Longrightarrow> compose p ts = p @ concat (map seg ts)"
  by (induction ts arbitrary: p) (simp_all add: makeChildPath_seg)

lemma seg_nonempty [simp]: "seg t \<noteq> []"
  by (cases t) (simp_all add: seg_def startsWith_def)

lemma seg_hd: "hd (seg t) = CHR ''.'' \<or> hd (seg t) = CHR ''[''"
  by (cases t) (auto simp: seg_def startsWith_def)

lemma tailOK_concat: "tailOK (concat (map seg ts))"
  using seg_hd by (cases ts) (auto simp: tailOK_def)

lemma takeWhile_tail:
  "\<forall>c\<in>set t. Q c \<Longrightarrow> T = [] \<or> \<not> Q (hd T) \<Longrightarrow> takeWhile Q (t @ T) = t"
  by (cases T) auto

lemma seg_key: "sepFree t \<Longrightarrow> seg t = CHR ''.'' # t"
  by (cases t) (auto simp: seg_def startsWith_def sepFree_def)

lemma seg_index: "seg (indexKey i) = indexKey i"
  by (simp add: seg_def startsWith_def indexKey_def)

lemma toString_no_close: "CHR '']'' \<notin> set (toString i)"
  using toString_digits [of i] by (auto simp: digitsOnly_def list_all_iff)

lemma seg_bracket: "seg (CHR ''['' # ds) = CHR ''['' # ds"
  by (simp add: seg_def startsWith_def)

lemma seg_cancel:
  assumes t: "pathTok t" and u: "pathTok u"
    and T: "tailOK T" and U: "tailOK U"
    and eq: "seg t @ T = seg u @ U"
  shows "t = u \<and> T = U"
proof -
  have key: "takeWhile (\<lambda>c. c \<noteq> CHR ''.'' \<and> c \<noteq> CHR ''['') (k @ R) = k"
    if "sepFree k" "tailOK R" for k R
    using that by (intro takeWhile_tail) (auto simp: sepFree_def tailOK_def)
  have idx: "takeWhile (\<lambda>c. c \<noteq> CHR '']'') (ds @ CHR '']'' # R) = ds"
    if "CHR '']'' \<notin> set ds" for ds R
    using that by (intro takeWhile_tail) auto
  from t u consider
      (kk) "sepFree t" "sepFree u"
    | (ki) ds where "sepFree t" "u = CHR ''['' # ds"
    | (ik) ds where "t = CHR ''['' # ds" "sepFree u"
    | (ii) ds es where "t = ''['' @ ds @ '']''" "CHR '']'' \<notin> set ds"
        "u = ''['' @ es @ '']''" "CHR '']'' \<notin> set es"
    by (auto simp: pathTok_def)
  then show ?thesis
  proof cases
    case kk
    with eq have e: "t @ T = u @ U" by (simp add: seg_key)
    then have "takeWhile (\<lambda>c. c \<noteq> CHR ''.'' \<and> c \<noteq> CHR ''['') (t @ T)
        = takeWhile (\<lambda>c. c \<noteq> CHR ''.'' \<and> c \<noteq> CHR ''['') (u @ U)" by simp
    then have "t = u" using key [OF kk(1) T] key [OF kk(2) U] by simp
    with e show ?thesis by simp
  next
    case ki
    with eq show ?thesis by (simp add: seg_key seg_bracket)
  next
    case ik
    with eq show ?thesis by (simp add: seg_key seg_bracket)
  next
    case ii
    with eq have e: "ds @ CHR '']'' # T = es @ CHR '']'' # U"
      by (simp add: seg_bracket)
    then have "takeWhile (\<lambda>c. c \<noteq> CHR '']'') (ds @ CHR '']'' # T)
        = takeWhile (\<lambda>c. c \<noteq> CHR '']'') (es @ CHR '']'' # U)" by simp
    then have "ds = es" by (simp only: idx [OF ii(2)] idx [OF ii(4)])
    with e ii show ?thesis by simp
  qed
qed

lemma segs_inj:
  "list_all pathTok ts \<Longrightarrow> list_all pathTok us \<Longrightarrow>
   concat (map seg ts) = concat (map seg us) \<Longrightarrow> ts = us"
proof (induction ts arbitrary: us)
  case Nil
  then show ?case by (cases us) auto
next
  case (Cons t ts)
  show ?case
  proof (cases us)
    case Nil
    with Cons.prems show ?thesis by simp
  next
    case (Cons u us')
    with Cons.prems have "seg t @ concat (map seg ts) = seg u @ concat (map seg us')" by simp
    from seg_cancel [OF _ _ tailOK_concat tailOK_concat this] Cons.prems Cons
    have "t = u" and "concat (map seg ts) = concat (map seg us')" by auto
    with Cons.IH [of us'] Cons.prems Cons show ?thesis by simp
  qed
qed

lemma builderTok_pathTok: "builderTok sepFree t \<Longrightarrow> pathTok t"
  using toString_no_close by (auto simp: builderTok_def pathTok_def indexKey_def)

lemma ids_distinct:
  assumes "wellFormed v" and "allKeys sepFree v"
  shows "distinct (map node_id (fst (buildFlowFromJSON v)))"
proof -
  have d: "distinct (paths v)" using paths_distinct(1) assms(1) by blast
  have t: "\<forall>ts\<in>set (paths v). list_all (builderTok sepFree) ts"
    using paths_tokens(1) assms(2) by blast
  have "inj_on (compose ''root'') (set (paths v))"
  proof (rule inj_onI)
    fix ts us assume a: "ts \<in> set (paths v)" "us \<in> set (paths v)"
      and e: "compose ''root'' ts = compose ''root'' us"
    from e have "concat (map seg ts) = concat (map seg us)" by (simp add: compose_seg)
    moreover from t a have "list_all pathTok ts" "list_all pathTok us"
      using builderTok_pathTok by (auto simp: list_all_iff)
    ultimately show "ts = us" by (intro segs_inj)
  qed
  with d show ?thesis by (simp add: build_ids distinct_map)
qed

lemma root_first:
  "node_id (hd (fst (buildFlowFromJSON v))) = ''root''"
  "\<forall>x\<in>set (tl (map node_id (fst (buildFlowFromJSON v)))). length x > 4"
proof -
  obtain rest where r: "paths v = [] # rest" and n: "[] \<notin> set rest"
    using paths_root by blast
  have m: "map node_id (fst (buildFlowFromJSON v)) = ''root'' # map (compose ''root'') rest"
    by (simp add: build_ids r)
  then show "node_id (hd (fst (buildFlowFromJSON v))) = ''root''"
    by (cases "fst (buildFlowFromJSON v)") auto
  have long: "length (compose ''root'' ts) > 4" if "ts \<noteq> []" for ts
  proof (cases ts)
    case Nil
    with that show ?thesis by simp
  next
    case (Cons a list)
    have "compose ''root'' ts = ''root'' @ seg a @ concat (map seg list)"
      unfolding Cons by (subst compose_seg) simp_all
    moreover have "length (seg a) > 0" by simp
    ultimately show ?thesis by simp
  qed
  show "\<forall>x\<in>set (tl (map node_id (fst (buildFlowFromJSON v)))). length x > 4"
  proof
    fix x assume "x \<in> set (tl (map node_id (fst (buildFlowFromJSON v))))"
    then have "x \<in> compose ''root'' ` set rest" unfolding m by simp
    then obtain ts where ts: "ts \<in> set rest" and x: "x = compose ''root'' ts" by blast
    from ts n have "ts \<noteq> []" by auto
    then show "length x > 4" unfolding x by (rule long)
  qed
qed

section \<open>Uniqueness of the node ids\<close>

text \<open>
  C2, as the claim states it: the node ids of every JSON input would be pairwise
  distinct.  In \<open>{"a.b": 1, "a": {"b": 2}}\<close> the keys of each object are distinct, and
  both the member \<open>a.b\<close> of the root and the member \<open>b\<close> of \<open>a\<close> get the id \<open>root.a.b\<close>.
\<close>

theorem ids_unique_counterexample:
  "wellFormed collisionDoc
   \<and> map node_id (fst (buildFlowFromJSON collisionDoc))
        = [''root'', ''root.a.b'', ''root.a'', ''root.a.b'']
   \<and> \<not> distinct (map node_id (fst (buildFlowFromJSON collisionDoc)))"
  by code_simp

text \<open>
  C2, amended.  For every JSON input whose object keys contain neither \<open>.\<close> nor \<open>[\<close>
  (the keys of each object being distinct), the node ids are pairwise distinct: the
  nodes at two places of the pre-order have the same id only if the places are the
  same.  For every JSON input the first node, the root's, has the id \<open>root\<close>, and no
  other node has it.
\<close>

theorem ids_unique:
  "(wellFormed v \<and> allKeys sepFree v \<longrightarrow>
      distinct (map node_id (fst (buildFlowFromJSON v)))
      \<and> (\<forall>i<length (fst (buildFlowFromJSON v)). \<forall>j<length (fst (buildFlowFromJSON v)).
            node_id (fst (buildFlowFromJSON v) ! i) = node_id (fst (buildFlowFromJSON v) ! j)
              \<longleftrightarrow> i = j))
   \<and> node_id (hd (fst (buildFlowFromJSON v))) = ''root''
   \<and> (\<forall>n\<in>set (tl (fst (buildFlowFromJSON v))). node_id n \<noteq> ''root'')"
proof (intro conjI impI)
  assume a: "wellFormed v \<and> allKeys sepFree v"
  then show d: "distinct (map node_id (fst (buildFlowFromJSON v)))"
    by (simp add: ids_distinct)
  show "\<forall>i<length (fst (buildFlowFromJSON v)). \<forall>j<length (fst (buildFlowFromJSON v)).
            node_id (fst (buildFlowFromJSON v) ! i) = node_id (fst (buildFlowFromJSON v) ! j)
              \<longleftrightarrow> i = j"
    using d by (auto simp: distinct_conv_nth)
next
  show "node_id (hd (fst (buildFlowFromJSON v))) = ''root''" by (rule root_first(1))
next
  show "\<forall>n\<in>set (tl (fst (buildFlowFromJSON v))). node_id n \<noteq> ''root''"
  proof
    fix n assume "n \<in> set (tl (fst (buildFlowFromJSON v)))"
    then have "node_id n \<in> set (tl (map node_id (fst (buildFlowFromJSON v))))"
      by (simp add: map_tl [symmetric])
    with root_first(2) [of v] have "length (node_id n) > 4" by blast
    then show "node_id n \<noteq> ''root''" by auto
  qed
qed

lemma layoutDoc_plain: "wellFormed layoutDoc \<and> allKeys sepFree layoutDoc"
  by code_simp

theorem ids_unique_witness:
  "wellFormed layoutDoc \<and> allKeys sepFree layoutDoc
   \<and> distinct (map node_id (fst (buildFlowFromJSON layoutDoc)))
   \<and> node_id (hd (fst (buildFlowFromJSON layoutDoc))) = ''root''"
  using ids_unique [of layoutDoc] layoutDoc_plain by blast

section \<open>The shape of the graph\<close>

lemma nonempty_paths: "filter (\<lambda>ts. ts \<noteq> []) (paths v) = tl (paths v)"
proof -
  obtain rest where r: "paths v = [] # rest" and n: "[] \<notin> set rest"
    using paths_root by blast
  from n have "filter (\<lambda>ts. ts \<noteq> []) rest = rest"
    by (intro filter_True) auto
  with r show ?thesis by simp
qed

lemma build_edges_tl: "snd (buildFlowFromJSON v) = map (edgeOf ''root'') (tl (paths v))"
  by (simp add: build_edges nonempty_paths)

lemma tl_paths_nonempty: "ts \<in> set (tl (paths v)) \<Longrightarrow> ts \<noteq> [] \<and> ts \<in> set (paths v)"
  using paths_root [of v] by auto

lemma paths_cases: "ts \<in> set (paths v) \<Longrightarrow> ts = [] \<or> ts \<in> set (tl (paths v))"
  using paths_root [of v] by auto

lemma compose_longer:
  assumes "ts \<noteq> []"
  shows "length (compose ''root'' (butlast ts)) < length (compose ''root'' ts)"
proof -
  have "compose ''root'' ts = compose ''root'' (butlast ts @ [last ts])"
    using assms by simp
  also have "\<dots> = compose ''root'' (butlast ts) @ seg (last ts)"
    by (simp only: compose_snoc) (simp add: makeChildPath_seg)
  finally show ?thesis by simp
qed

lemma target_not_root:
  assumes "e \<in> set (snd (buildFlowFromJSON v))"
  shows "target e \<noteq> ''root''"
proof -
  from assms obtain ts where ts: "ts \<in> set (tl (paths v))" and e: "e = edgeOf ''root'' ts"
    by (auto simp: build_edges_tl)
  from tl_paths_nonempty [OF ts] compose_longer [of ts]
  have "length (compose ''root'' ts) > 0 + length (compose ''root'' (butlast ts))" by simp
  moreover have "length (compose ''root'' (butlast ts)) \<ge> 4"
    by (simp add: compose_seg)
  ultimately have "length (target e) > 4" by (simp add: e edgeOf_def)
  then show ?thesis by auto
qed

lemma edge_ends:
  assumes "e \<in> set (snd (buildFlowFromJSON v))"
  shows "source e \<in> node_id ` set (fst (buildFlowFromJSON v))
       \<and> target e \<in> node_id ` set (fst (buildFlowFromJSON v))"
proof -
  from assms obtain ts where ts: "ts \<in> set (tl (paths v))" and e: "e = edgeOf ''root'' ts"
    by (auto simp: build_edges_tl)
  from tl_paths_nonempty [OF ts] have ne: "ts \<noteq> []" and m: "ts \<in> set (paths v)" by auto
  from paths_closed(1) [of v] m ne have b: "butlast ts \<in> set (paths v)" by blast
  have ids: "node_id ` set (fst (buildFlowFromJSON v)) = compose ''root'' ` set (paths v)"
    using build_ids [of v] by (metis set_map)
  show ?thesis unfolding ids e using m b by (simp add: edgeOf_def)
qed

lemma edges_acyclic: "acyclic (edgeRel (snd (buildFlowFromJSON v)))"
proof (rule acyclic_subset)
  show "acyclic (measure (length :: string \<Rightarrow> nat))"
    by (rule wf_acyclic) simp
  show "edgeRel (snd (buildFlowFromJSON v)) \<subseteq> measure length"
  proof
    fix x assume "x \<in> edgeRel (snd (buildFlowFromJSON v))"
    then obtain ts where ts: "ts \<in> set (tl (paths v))"
      and x: "x = (compose ''root'' (butlast ts), compose ''root'' ts)"
      by (auto simp: edgeRel_def build_edges_tl edgeOf_def)
    from tl_paths_nonempty [OF ts] compose_longer [of ts] show "x \<in> measure length"
      by (simp add: x)
  qed
qed

lemma path_reachable:
  "ts \<in> set (paths v) \<Longrightarrow>
     (''root'', compose ''root'' ts) \<in> (edgeRel (snd (buildFlowFromJSON v)))\<^sup>*"
proof (induction ts rule: rev_induct)
  case Nil
  then show ?case by simp
next
  case (snoc t bs)
  from paths_closed(1) [of v] snoc.prems have "bs \<in> set (paths v)" by fastforce
  with snoc.IH have r: "(''root'', compose ''root'' bs) \<in> (edgeRel (snd (buildFlowFromJSON v)))\<^sup>*"
    by simp
  from paths_cases [OF snoc.prems] have "bs @ [t] \<in> set (tl (paths v))" by simp
  then have "edgeOf ''root'' (bs @ [t]) \<in> set (snd (buildFlowFromJSON v))"
    by (simp add: build_edges_tl)
  then have "(compose ''root'' bs, compose ''root'' (bs @ [t])) \<in> edgeRel (snd (buildFlowFromJSON v))"
    unfolding edgeRel_def by (force simp: edgeOf_def)
  with r show ?case by (rule rtrancl_into_rtrancl)
qed

lemma node_reachable:
  assumes "n \<in> set (fst (buildFlowFromJSON v))"
  shows "(''root'', node_id n) \<in> (edgeRel (snd (buildFlowFromJSON v)))\<^sup>*"
proof -
  have "node_id n \<in> set (map node_id (fst (buildFlowFromJSON v)))" using assms by simp
  then obtain ts where "ts \<in> set (paths v)" and "node_id n = compose ''root'' ts"
    unfolding build_ids by auto
  with path_reachable show ?thesis by simp
qed

lemma targets_tl:
  "map target (snd (buildFlowFromJSON v)) = tl (map node_id (fst (buildFlowFromJSON v)))"
  by (simp add: build_edges_tl build_ids edgeOf_def map_tl comp_def)

lemma node_in_tl:
  assumes "n \<in> set (fst (buildFlowFromJSON v))" and "node_id n \<noteq> ''root''"
  shows "node_id n \<in> set (tl (map node_id (fst (buildFlowFromJSON v))))"
proof -
  have "node_id n \<in> set (map node_id (fst (buildFlowFromJSON v)))" using assms(1) by simp
  moreover obtain rest where "map node_id (fst (buildFlowFromJSON v)) = ''root'' # rest"
    using paths_root [of v] by (auto simp: build_ids)
  ultimately show ?thesis using assms(2) by auto
qed

lemma has_incoming:
  assumes "n \<in> set (fst (buildFlowFromJSON v))" and "node_id n \<noteq> ''root''"
  shows "\<exists>e\<in>set (snd (buildFlowFromJSON v)). target e = node_id n"
proof -
  from node_in_tl [OF assms] have "node_id n \<in> set (map target (snd (buildFlowFromJSON v)))"
    by (simp only: targets_tl)
  then show ?thesis by auto
qed

lemma one_incoming:
  assumes d: "distinct (map node_id (fst (buildFlowFromJSON v)))"
    and n: "n \<in> set (fst (buildFlowFromJSON v))" and r: "node_id n \<noteq> ''root''"
  shows "length (filter (\<lambda>e. target e = node_id n) (snd (buildFlowFromJSON v))) = 1"
proof -
  let ?ts = "map target (snd (buildFlowFromJSON v))"
  have dt: "distinct ?ts" unfolding targets_tl using d by (rule distinct_tl)
  have m: "node_id n \<in> set ?ts" unfolding targets_tl using n r by (rule node_in_tl)
  have "length (filter (\<lambda>e. target e = node_id n) (snd (buildFlowFromJSON v)))
      = length (filter (\<lambda>y. y = node_id n) ?ts)"
    by (simp add: filter_map comp_def)
  also have "\<dots> = card ({y. y = node_id n} \<inter> set ?ts)"
    using dt by (rule distinct_length_filter)
  also have "{y. y = node_id n} \<inter> set ?ts = {node_id n}" using m by auto
  finally show ?thesis by simp
qed

lemma edge_count:
  "length (snd (buildFlowFromJSON v)) + 1 = length (fst (buildFlowFromJSON v))"
proof -
  have "length (snd (buildFlowFromJSON v)) = length (map target (snd (buildFlowFromJSON v)))"
    by simp
  also have "\<dots> = length (map node_id (fst (buildFlowFromJSON v))) - 1"
    by (simp only: targets_tl length_tl)
  finally show ?thesis
    using paths_root [of v] build_ids [of v]
    by (cases "fst (buildFlowFromJSON v)") auto
qed

text \<open>
  C6, as the claim states it: every node but the root would have exactly one incoming
  edge.  In the graph of \<open>{"a.b": 1, "a": {"b": 2}}\<close> two edges, from \<open>root\<close> and from
  \<open>root.a\<close>, end in the id \<open>root.a.b\<close> of the second node.
\<close>

theorem tree_shape_counterexample:
  "fst (buildFlowFromJSON collisionDoc) ! 1 \<in> set (fst (buildFlowFromJSON collisionDoc))
   \<and> node_id (fst (buildFlowFromJSON collisionDoc) ! 1) = ''root.a.b''
   \<and> map source (filter (\<lambda>e. target e = node_id (fst (buildFlowFromJSON collisionDoc) ! 1))
         (snd (buildFlowFromJSON collisionDoc))) = [''root'', ''root.a'']"
  by code_simp

text \<open>
  C6, amended.  For every JSON input: no edge ends in \<open>root\<close>; every edge joins the ids
  of two nodes; the edges have no cycle; the id of every node is reached from \<open>root\<close>
  along the edges; every node but the root has an incoming edge; and there is one edge
  less than there are nodes.  When the node ids are pairwise distinct (as they are when
  no object key contains \<open>.\<close> or \<open>[\<close>), every node but the root has exactly one incoming
  edge.
\<close>

theorem tree_shape:
  "(\<forall>e\<in>set (snd (buildFlowFromJSON v)). target e \<noteq> ''root'')
   \<and> (\<forall>e\<in>set (snd (buildFlowFromJSON v)).
         source e \<in> node_id ` set (fst (buildFlowFromJSON v))
         \<and> target e \<in> node_id ` set (fst (buildFlowFromJSON v)))
   \<and> acyclic (edgeRel (snd (buildFlowFromJSON v)))
   \<and> (\<forall>n\<in>set (fst (buildFlowFromJSON v)).
         (''root'', node_id n) \<in> (edgeRel (snd (buildFlowFromJSON v)))\<^sup>*)
   \<and> (\<forall>n\<in>set (fst (buildFlowFromJSON v)). node_id n \<noteq> ''root'' \<longrightarrow>
         (\<exists>e\<in>set (snd (buildFlowFromJSON v)). target e = node_id n))
   \<and> length (snd (buildFlowFromJSON v)) + 1 = length (fst (buildFlowFromJSON v))
   \<and> (distinct (map node_id (fst (buildFlowFromJSON v))) \<longrightarrow>
        (\<forall>n\<in>set (fst (buildFlowFromJSON v)). node_id n \<noteq> ''root'' \<longrightarrow>
           length (filter (\<lambda>e. target e = node_id n) (snd (buildFlowFromJSON v))) = 1))"
  using target_not_root [of _ v] edge_ends [of _ v] edges_acyclic [of v] node_reachable [of _ v]
    has_incoming [of _ v] edge_count [of v] one_incoming [of v]
  by (intro conjI ballI impI) blast+

lemma layoutDoc_ids:
  "map node_id (fst (buildFlowFromJSON layoutDoc))
     = [''root'', ''root.a'', ''root.a[0]'', ''root.a[1]'', ''root.b'']"
  by code_simp

lemma layoutDoc_node3:
  "fst (buildFlowFromJSON layoutDoc) ! 3 \<in> set (fst (buildFlowFromJSON layoutDoc))
   \<and> node_id (fst (buildFlowFromJSON layoutDoc) ! 3) \<noteq> ''root''"
  by code_simp

theorem tree_shape_witness:
  "distinct (map node_id (fst (buildFlowFromJSON layoutDoc)))
   \<and> fst (buildFlowFromJSON layoutDoc) ! 3 \<in> set (fst (buildFlowFromJSON layoutDoc))
   \<and> node_id (fst (buildFlowFromJSON layoutDoc) ! 3) \<noteq> ''root''
   \<and> length (filter (\<lambda>e. target e = node_id (fst (buildFlowFromJSON layoutDoc) ! 3))
        (snd (buildFlowFromJSON layoutDoc))) = 1
   \<and> (''root'', node_id (fst (buildFlowFromJSON layoutDoc) ! 3))
        \<in> (edgeRel (snd (buildFlowFromJSON layoutDoc)))\<^sup>*
   \<and> acyclic (edgeRel (snd (buildFlowFromJSON layoutDoc)))"
proof -
  have d: "distinct (map node_id (fst (buildFlowFromJSON layoutDoc)))"
    by (simp add: layoutDoc_ids)
  note T = tree_shape [of layoutDoc]
  note N = layoutDoc_node3
  have a: "acyclic (edgeRel (snd (buildFlowFromJSON layoutDoc)))"
    using T by (elim conjE)
  have r: "(''root'', node_id (fst (buildFlowFromJSON layoutDoc) ! 3))
        \<in> (edgeRel (snd (buildFlowFromJSON layoutDoc)))\<^sup>*"
    using T conjunct1 [OF N] by (elim conjE) (rule bspec)
  have o: "length (filter (\<lambda>e. target e = node_id (fst (buildFlowFromJSON layoutDoc) ! 3))
        (snd (buildFlowFromJSON layoutDoc))) = 1"
    using T d N by (elim conjE) (erule (1) impE, drule (1) bspec, erule (1) impE)
  show ?thesis using d N a r o by (intro conjI) (elim conjE, assumption)+
qed

section \<open>Round trip from a node to its path and back\<close>

lemma doSearch_resolve:
  "doSearch st =
     (case resolve (flowNodes st) (query st) of
        NoLookup \<Rightarrow> st\<lparr> matchMsg := [] \<rparr>
      | NotFound \<Rightarrow> st\<lparr> highlightId := [], matchMsg := ''No match found'' \<rparr>
      | Found n \<Rightarrow> st\<lparr> highlightId := node_id n, matchMsg := ''Match found'' \<rparr>)"
  by (simp add: doSearch_def resolve_def Let_def split: option.splits)

lemma scan_plain: "sepFree k \<Longrightarrow> scan (k @ R) buf acc = scan R (buf @ k) acc"
proof (induction k arbitrary: buf)
  case Nil
  then show ?case by simp
next
  case (Cons c k)
  then have "c \<noteq> CHR ''.''" "c \<noteq> CHR ''[''" "sepFree k" by (auto simp: sepFree_def)
  with Cons.IH [of "buf @ [c]"] show ?case by (simp add: scan.simps)
qed

lemma scan_eatDot: "scan (eatDot R) [] acc = scan R [] acc"
  by (cases R) (auto simp: eatDot_def scan.simps flush_def)

lemma scan_strip_dot: "scan (if startsWith S ''.'' then drop 1 S else S) [] acc = scan S [] acc"
  by (cases S) (auto simp: startsWith_def scan.simps flush_def)

lemma readBracket_closed:
  "CHR '']'' \<notin> set ds \<Longrightarrow> readBracket (ds @ CHR '']'' # R) a = Some (a @ ds, R)"
  by (induction ds arbitrary: a) auto

lemma trim_id:
  assumes "s = [] \<or> (\<not> isSpace (hd s) \<and> \<not> isSpace (last s))"
  shows "trim s = s"
proof (cases "s = []")
  case True
  then show ?thesis by simp
next
  case False
  with assms have h: "\<not> isSpace (hd s)" and l: "\<not> isSpace (last s)" by auto
  have 1: "dropWhile isSpace s = s" using h by (intro dropWhile_fix) simp
  have "hd (rev s) = last s" using False by (simp add: hd_rev)
  then have 2: "dropWhile isSpace (rev s) = rev s" using l by (intro dropWhile_fix) simp
  show ?thesis by (simp add: trim_def 1 2)
qed

lemma digits_no_close: "digitsOnly ds \<Longrightarrow> CHR '']'' \<notin> set ds"
  by (auto simp: digitsOnly_def list_all_iff)

lemma digits_ends:
  assumes "digitsOnly ds"
  shows "ds \<noteq> []" and "\<not> isSpace (hd ds)" and "\<not> isSpace (last ds)"
proof -
  from assms show ne: "ds \<noteq> []" by (simp add: digitsOnly_def)
  from assms have "list_all isDigit ds" by (simp add: digitsOnly_def)
  with ne have "isDigit (hd ds)" "isDigit (last ds)" by (auto simp: list_all_iff)
  then show "\<not> isSpace (hd ds)" and "\<not> isSpace (last ds)" by (simp_all add: isDigit_not_space)
qed

lemma trim_digits: "digitsOnly ds \<Longrightarrow> trim ds = ds"
  using digits_ends [of ds] by (intro trim_id) simp

lemma scan_digits:
  assumes "digitsOnly ds"
  shows "scan (CHR ''['' # ds @ CHR '']'' # R) buf acc
           = scan R [] (flush buf acc @ [CHR ''['' # ds @ '']''])"
proof -
  have rb: "readBracket (ds @ CHR '']'' # R) [] = Some (ds, R)"
    using readBracket_closed [OF digits_no_close [OF assms], of R "[]"] by simp
  have "scan (CHR ''['' # ds @ CHR '']'' # R) buf acc
      = scan (eatDot R) [] (flush buf acc @ [''['' @ ds @ '']''])"
    by (subst scan.simps) (simp add: rb trim_digits [OF assms] assms)
  then show ?thesis by (simp add: scan_eatDot)
qed

lemma scan_segs:
  "list_all goodTok ts \<Longrightarrow> scan (concat (map seg ts)) buf acc = Some (flush buf acc @ ts)"
proof (induction ts arbitrary: buf acc)
  case Nil
  then show ?case by (simp add: scan.simps)
next
  case (Cons t ts)
  then have rest: "list_all goodTok ts" by simp
  from Cons.prems consider (key) "keyTok t" | (idx) ds where "digitsOnly ds" "t = CHR ''['' # ds @ '']''"
    by (auto simp: goodTok_def idxTok_iff)
  then show ?case
  proof cases
    case key
    then have s: "sepFree t" and ne: "t \<noteq> []" by (auto simp: keyTok_def)
    have "scan (concat (map seg (t # ts))) buf acc
        = scan (CHR ''.'' # (t @ concat (map seg ts))) buf acc"
      by (simp add: seg_key [OF s])
    also have "\<dots> = scan (t @ concat (map seg ts)) [] (flush buf acc)"
      by (subst scan.simps) simp
    also have "\<dots> = scan (concat (map seg ts)) t (flush buf acc)"
      using scan_plain [OF s, of _ "[]"] by simp
    also have "\<dots> = Some (flush t (flush buf acc) @ ts)"
      by (rule Cons.IH [OF rest])
    finally show ?thesis using ne by (simp add: flush_def)
  next
    case idx
    have "scan (concat (map seg (t # ts))) buf acc
        = scan (CHR ''['' # ds @ CHR '']'' # concat (map seg ts)) buf acc"
      unfolding idx(2) by (simp add: seg_bracket)
    also have "\<dots> = scan (concat (map seg ts)) [] (flush buf acc @ [t])"
      unfolding idx(2) by (rule scan_digits [OF idx(1)])
    also have "\<dots> = Some (flush [] (flush buf acc @ [t]) @ ts)"
      by (rule Cons.IH [OF rest])
    finally show ?thesis by (simp add: flush_def)
  qed
qed


lemma segments_tokens:
  "segments S \<Longrightarrow> \<exists>ts. list_all goodTok ts \<and> concat (map seg ts) = S"
proof (induction S rule: segments.induct)
  case 1
  show ?case by (rule exI [of _ "[]"]) simp
next
  case (2 c cs)
  show ?case
  proof (cases "c = CHR ''.''")
    case True
    let ?k = "takeWhile notSep cs"
    from "2.prems" True have ne: "?k \<noteq> []" and r: "segments (dropWhile notSep cs)" by auto
    from "2.IH"(1) [OF True r] obtain ts where ts: "list_all goodTok ts"
      and e: "concat (map seg ts) = dropWhile notSep cs" by blast
    have "\<forall>x\<in>set ?k. notSep x" by (auto dest: set_takeWhileD)
    then have s: "sepFree ?k" by (auto simp: sepFree_def notSep_def)
    with ne have g: "goodTok ?k" by (simp add: goodTok_def keyTok_def)
    have "concat (map seg (?k # ts)) = c # cs"
      by (simp add: seg_key [OF s] e True)
    with g ts show ?thesis by (intro exI [of _ "?k # ts"]) simp
  next
    case False
    with "2.prems" have b: "c = CHR ''[''" by (auto split: if_splits)
    let ?ds = "takeWhile (\<lambda>d. d \<noteq> CHR '']'') cs"
    let ?rest = "dropWhile (\<lambda>d. d \<noteq> CHR '']'') cs"
    from "2.prems" False b have m: "CHR '']'' \<in> set cs" and d: "digitsOnly ?ds"
      and r: "segments (drop 1 ?rest)" by auto
    from "2.IH"(2) [OF False b r] obtain ts where ts: "list_all goodTok ts"
      and e: "concat (map seg ts) = drop 1 ?rest" by blast
    from m have "?rest \<noteq> []" by simp
    moreover have "?rest \<noteq> [] \<Longrightarrow> hd ?rest = CHR '']''"
      using hd_dropWhile [of "\<lambda>d. d \<noteq> CHR '']''" cs] by auto
    ultimately have "?rest = CHR '']'' # drop 1 ?rest" by (cases ?rest) auto
    then have cs: "cs = ?ds @ CHR '']'' # drop 1 ?rest"
      by (metis takeWhile_dropWhile_id)
    let ?t = "CHR ''['' # ?ds @ '']''"
    have g: "goodTok ?t" using d by (auto simp: goodTok_def idxTok_iff)
    have "concat (map seg (?t # ts)) = CHR ''['' # ?ds @ CHR '']'' # drop 1 ?rest"
      by (simp add: seg_bracket e)
    also have "\<dots> = c # cs" using cs b by simp
    finally show ?thesis using g ts by (intro exI [of _ "?t # ts"]) simp
  qed
qed


lemma tokens_segments:
  "list_all (builderTok pathKey) us \<Longrightarrow>
     \<exists>ts. list_all goodTok ts \<and> concat (map seg ts) = concat (map seg us)"
proof (induction us)
  case Nil
  show ?case by (rule exI [of _ "[]"]) simp
next
  case (Cons u us)
  then obtain ts where ts: "list_all goodTok ts" and e: "concat (map seg ts) = concat (map seg us)"
    by auto
  from Cons.prems consider (key) "pathKey u" | (idx) i where "u = indexKey i"
    by (auto simp: builderTok_def)
  then obtain hs where hs: "list_all goodTok hs" and h: "concat (map seg hs) = seg u"
  proof cases
    case key
    then have "segments (seg u)" by (simp add: pathKey_def)
    from segments_tokens [OF this] that show ?thesis by blast
  next
    case idx
    have "goodTok (indexKey i)"
      using toString_digits [of i] by (auto simp: goodTok_def idxTok_iff indexKey_def)
    then show ?thesis using that [of "[u]"] by (simp add: idx seg_index)
  qed
  show ?case using hs ts h e by (intro exI [of _ "hs @ ts"]) simp
qed

lemma seg_last:
  assumes "builderTok pathKey t"
  shows "\<not> isSpace (last (seg t))"
proof -
  from assms consider (key) "pathKey t" | (idx) i where "t = indexKey i"
    by (auto simp: builderTok_def)
  then show ?thesis
  proof cases
    case key
    then have "t \<noteq> []" "\<not> isSpace (last t)" by (simp_all add: pathKey_def)
    then show ?thesis by (simp add: seg_def)
  next
    case idx
    have "last (indexKey i) = CHR '']''" by (simp add: indexKey_def)
    then show ?thesis by (simp add: idx seg_index)
  qed
qed

lemma segs_last_eq:
  assumes "ts \<noteq> []"
  shows "last (concat (map seg ts)) = last (seg (last ts))"
proof -
  from assms have "ts = butlast ts @ [last ts]" by simp
  then have "concat (map seg ts) = concat (map seg (butlast ts @ [last ts]))"
    by simp
  then have "concat (map seg ts) = concat (map seg (butlast ts)) @ seg (last ts)"
    by (simp only: map_append concat_append list.map concat.simps append_Nil2)
  then show ?thesis by simp
qed

lemma segs_last:
  assumes "list_all (builderTok pathKey) ts" and "ts \<noteq> []"
  shows "\<not> isSpace (last (concat (map seg ts)))"
proof -
  have "builderTok pathKey (last ts)" using assms by (simp add: list_all_iff)
  then show ?thesis by (simp add: segs_last_eq [OF assms(2)] seg_last)
qed

lemma clickText_key:
  "clickText (CHR ''r'' # CHR ''o'' # CHR ''o'' # CHR ''t'' # CHR ''.'' # R) = R"
  by (simp add: clickText_def startsWith_def)

lemma clickText_index:
  "clickText (CHR ''r'' # CHR ''o'' # CHR ''o'' # CHR ''t'' # CHR ''['' # R) = CHR ''['' # R"
  by (simp add: clickText_def startsWith_def)

lemma startsWith_hd: "startsWith s [c] \<longleftrightarrow> s \<noteq> [] \<and> hd s = c"
  by (cases s) (auto simp: startsWith_def)

lemma text_facts:
  assumes us: "list_all (builderTok pathKey) us" and ne: "us \<noteq> []"
    and first: "opensPath (hd us) \<or> (\<exists>i. hd us = indexKey i)"
  defines "x \<equiv> clickText (''root'' @ concat (map seg us))"
  shows "\<exists>ts. list_all goodTok ts \<and> concat (map seg ts) = concat (map seg us)
           \<and> x \<noteq> [] \<and> hd x \<noteq> CHR ''$'' \<and> hd x \<noteq> CHR ''.'' \<and> \<not> isSpace (hd x)
           \<and> \<not> isSpace (last x) \<and> scan x [] [] = Some ts"
proof -
  from tokens_segments [OF us] obtain ts where ts: "list_all goodTok ts"
    and e: "concat (map seg ts) = concat (map seg us)" by blast
  have sc: "scan (concat (map seg us)) [] [] = Some ts"
    using scan_segs [OF ts, of "[]" "[]"] by (simp add: e flush_def)
  have l: "\<not> isSpace (last (concat (map seg us)))" by (rule segs_last [OF us ne])
  from ne obtain u us' where c: "us = u # us'" by (cases us) auto
  have facts: "x \<noteq> [] \<and> hd x \<noteq> CHR ''$'' \<and> hd x \<noteq> CHR ''.'' \<and> \<not> isSpace (hd x)
           \<and> \<not> isSpace (last x) \<and> scan x [] [] = Some ts"
  proof (cases "startsWith u ''[''")
    case True
    then obtain r where u: "u = CHR ''['' # r" by (cases u) (auto simp: startsWith_def)
    have S: "concat (map seg us) = CHR ''['' # r @ concat (map seg us')"
      by (simp add: c u seg_bracket)
    have x: "x = concat (map seg us)" unfolding x_def S by (simp add: clickText_index)
    show ?thesis unfolding x using l sc by (simp add: S)
  next
    case False
    then have nidx: "u \<noteq> indexKey i" for i by (auto simp: indexKey_def startsWith_def)
    with us c have k: "pathKey u" by (auto simp: builderTok_def)
    from first c nidx have o: "opensPath u" by auto
    from k have une: "u \<noteq> []" by (simp add: pathKey_def)
    have su: "seg u = CHR ''.'' # u" using False by (simp add: seg_def)
    from k have "takeWhile notSep u \<noteq> []" by (simp add: pathKey_def su)
    with une have "notSep (hd u)" by (cases u) (auto split: if_splits)
    then have nd: "hd u \<noteq> CHR ''.''" by (simp add: notSep_def)
    have S: "concat (map seg us) = CHR ''.'' # u @ concat (map seg us')"
      by (simp add: c su)
    have x: "x = u @ concat (map seg us')" unfolding x_def S by (simp add: clickText_key)
    have xne: "x \<noteq> []" using une by (simp add: x)
    have hx: "hd x = hd u" using une by (simp add: x)
    have "last (concat (map seg us)) = last x" unfolding S x using une by simp
    with l have lx: "\<not> isSpace (last x)" by simp
    have "scan (concat (map seg us)) [] [] = scan x [] []"
      unfolding S x by (subst scan.simps) (simp add: flush_def)
    with sc have "scan x [] [] = Some ts" by simp
    with xne hx nd o lx show ?thesis by (simp add: opensPath_def)
  qed
  with ts e show ?thesis by blast
qed

lemma parse_text:
  assumes "x \<noteq> []" and "hd x \<noteq> CHR ''$''" and "hd x \<noteq> CHR ''.''" and "\<not> isSpace (hd x)"
    and "\<not> isSpace (last x)" and "scan x [] [] = Some ts" and "[] \<notin> set ts"
  shows "parseJsonPath (normalizeQuery (trim x)) = Some ts"
proof -
  have t: "trim x = x" using assms(4,5) by (intro trim_id) simp
  have f: "filter (\<lambda>t. t \<noteq> []) ts = ts" using assms(7) by (intro filter_True) auto
  have p1: "parseJsonPath x = Some ts"
    using assms(1,2,3,6) by (simp add: parseJsonPath_def t startsWith_hd f)
  have "trim (''$.'' @ x) = ''$.'' @ x"
    using assms(1,5) by (intro trim_id) simp
  then have p2: "parseJsonPath (''$.'' @ x) = Some ts"
    using assms(6) by (simp add: parseJsonPath_def startsWith_def f)
  show ?thesis unfolding t using p1 p2 by (simp add: normalizeQuery_def)
qed

lemma find_member:
  assumes "n \<in> set ns" and "P n"
  shows "\<exists>m. find P ns = Some m \<and> P m \<and> m \<in> set ns"
proof (cases "find P ns")
  case None
  with assms show ?thesis by (auto simp: find_None_iff)
next
  case (Some m)
  then show ?thesis by (auto simp: find_Some_iff)
qed

lemma pathsKeys_hd: "ts \<in> set (pathsKeys kvs) \<Longrightarrow> hd ts \<in> fst ` set kvs"
  by (induction kvs) (auto simp: paths_simps)

lemma pathsItems_hd: "ts \<in> set (pathsItems items idx) \<Longrightarrow> \<exists>i. hd ts = indexKey i"
  by (induction items arbitrary: idx) (auto simp: paths_simps)

lemma paths_first:
  assumes "us \<in> set (paths v)" and "us \<noteq> []"
  shows "hd us \<in> set (rootKeys v) \<or> (\<exists>i. hd us = indexKey i)"
proof (cases v)
  case (JObject kvs)
  with assms have "us \<in> set (pathsKeys kvs)" by (simp add: paths_simps)
  from pathsKeys_hd [OF this] show ?thesis by (simp add: rootKeys_def JObject)
next
  case (JArray items)
  with assms have "us \<in> set (pathsItems items 0)" by (simp add: paths_simps)
  from pathsItems_hd [OF this] show ?thesis by simp
next
  case (JPrimitive lit)
  with assms show ?thesis by (simp add: paths_simps)
qed

lemma resolve_click:
  assumes keys: "allKeys pathKey v" and roots: "list_all opensPath (rootKeys v)"
    and n: "n \<in> set (fst (buildFlowFromJSON v))" and r: "node_id n \<noteq> ''root''"
  shows "\<exists>m. resolve (fst (buildFlowFromJSON v)) (clickText (node_id n)) = Found m
           \<and> node_id m = node_id n \<and> m \<in> set (fst (buildFlowFromJSON v))"
proof -
  let ?ns = "fst (buildFlowFromJSON v)"
  have "node_id n \<in> set (map node_id ?ns)" using n by simp
  then obtain us where us: "us \<in> set (paths v)" and i: "node_id n = compose ''root'' us"
    unfolding build_ids by auto
  from r i have ne: "us \<noteq> []" by auto
  have i': "node_id n = ''root'' @ concat (map seg us)"
    unfolding i by (rule compose_seg) simp
  from paths_tokens(1) [of pathKey v] keys us have t: "list_all (builderTok pathKey) us" by blast
  from paths_first [OF us ne] roots have f: "opensPath (hd us) \<or> (\<exists>i. hd us = indexKey i)"
    by (auto simp: list_all_iff)
  let ?x = "clickText (node_id n)"
  from text_facts [OF t ne f] obtain ts where ts: "list_all goodTok ts"
    and e: "concat (map seg ts) = concat (map seg us)"
    and x: "?x \<noteq> []" "hd ?x \<noteq> CHR ''$''" "hd ?x \<noteq> CHR ''.''" "\<not> isSpace (hd ?x)"
      "\<not> isSpace (last ?x)" "scan ?x [] [] = Some ts"
    unfolding i' by blast
  have "[] \<notin> set ts" using ts goodTok_nonempty by (auto simp: list_all_iff)
  from parse_text [OF x this] have "parseJsonPath (normalizeQuery (trim ?x)) = Some ts" .
  moreover have tx: "trim ?x = ?x" using x(4,5) by (intro trim_id) simp
  ultimately have p: "parseJsonPath (normalizeQuery ?x) = Some ts" by simp
  have "compose ''root'' ts = ''root'' @ concat (map seg ts)" by (rule compose_seg) simp
  then have c: "compose ''root'' ts = node_id n" by (simp add: e i')
  have "resolve ?ns ?x = (case find (\<lambda>m. node_id m = compose ''root'' ts) ?ns of
       None \<Rightarrow> NotFound | Some m \<Rightarrow> Found m)"
    using x(1) by (simp add: resolve_def findNodeByPath_def Let_def tx p compose_def)
  then have "resolve ?ns ?x = (case find (\<lambda>m. node_id m = node_id n) ?ns of
       None \<Rightarrow> NotFound | Some m \<Rightarrow> Found m)"
    by (simp only: c)
  with find_member [OF n, of "\<lambda>m. node_id m = node_id n"] show ?thesis by auto
qed

lemma same_node:
  assumes "distinct (map node_id ns)" and "m \<in> set ns" and "n \<in> set ns"
    and "node_id m = node_id n"
  shows "m = n"
  using assms by (auto simp: distinct_map inj_on_def)

lemma root_click:
  assumes "n \<in> set (fst (buildFlowFromJSON v))" and "node_id n = ''root''"
  shows "clickText (node_id n) = []"
    and "map_option node_id (findNodeByPath (fst (buildFlowFromJSON v))
           (normalizeQuery (trim (clickText (node_id n))))) = Some ''root''"
    and "resolve (fst (buildFlowFromJSON v)) (clickText (node_id n)) = NoLookup"
proof -
  show c: "clickText (node_id n) = []" unfolding assms(2) by code_simp
  have "parseJsonPath (normalizeQuery (trim [])) = Some []" by code_simp
  then have "findNodeByPath (fst (buildFlowFromJSON v)) (normalizeQuery (trim []))
      = find (\<lambda>m. node_id m = ''root'') (fst (buildFlowFromJSON v))"
    by (simp add: findNodeByPath_def)
  with find_member [OF assms(1), of "\<lambda>m. node_id m = ''root''"] assms(2)
  show "map_option node_id (findNodeByPath (fst (buildFlowFromJSON v))
           (normalizeQuery (trim (clickText (node_id n))))) = Some ''root''"
    unfolding c by auto
  show "resolve (fst (buildFlowFromJSON v)) (clickText (node_id n)) = NoLookup"
    unfolding c by (simp add: resolve_def)
qed

text \<open>
  C1, as the claim states it: the text copied from any node of any graph would resolve
  to a node with the same id.  It does not for the member of \<open>{"a[b": 1}\<close> (the tokenizer
  fails), of \<open>{"a[ 0]": 1}\<close> (the bracket text is trimmed), of \<open>{"a.": 1}\<close> (the trailing
  dot is dropped), of \<open>{"$a": 1}\<close> (the leading \<open>$\<close> is stripped), of \<open>{" a": 1}\<close> and of
  \<open>{"a ": 1}\<close> (the query is trimmed): no node is found.  For the inner member of
  \<open>{"a": {"": 1}}\<close>, with id \<open>root.a.\<close>, the node found is its parent \<open>root.a\<close>.
\<close>

theorem round_trip_counterexample:
  "map node_id (fst (buildFlowFromJSON (docWithKey ''a[b''))) = [''root'', ''root.a[b'']
   \<and> roundTrip (docWithKey ''a[b'') 1 = NotFound
   \<and> map node_id (fst (buildFlowFromJSON (docWithKey ''a[ 0]''))) = [''root'', ''root.a[ 0]'']
   \<and> roundTrip (docWithKey ''a[ 0]'') 1 = NotFound
   \<and> map node_id (fst (buildFlowFromJSON (docWithKey ''a.''))) = [''root'', ''root.a.'']
   \<and> roundTrip (docWithKey ''a.'') 1 = NotFound
   \<and> map node_id (fst (buildFlowFromJSON (docWithKey ''$a''))) = [''root'', ''root.$a'']
   \<and> roundTrip (docWithKey ''$a'') 1 = NotFound
   \<and> map node_id (fst (buildFlowFromJSON (docWithKey '' a''))) = [''root'', ''root. a'']
   \<and> roundTrip (docWithKey '' a'') 1 = NotFound
   \<and> map node_id (fst (buildFlowFromJSON (docWithKey ''a ''))) = [''root'', ''root.a '']
   \<and> roundTrip (docWithKey ''a '') 1 = NotFound
   \<and> map node_id (fst (buildFlowFromJSON nestedEmptyDoc)) = [''root'', ''root.a'', ''root.a.'']
   \<and> foundId (roundTrip nestedEmptyDoc 2) = Some ''root.a''"
  by code_simp

text \<open>
  C1, amended.  Let every object key of the JSON value read as a path: written after a
  dot (a key that starts with \<open>[\<close> is written as it is), it is a sequence of segments,
  each a dot followed by at least one character other than \<open>.\<close> and \<open>[\<close>, or \<open>[\<close>, digits
  and \<open>]\<close>; and let it not end with whitespace.  Let no key of the root object start with
  \<open>$\<close> or whitespace.  Keys with dots, with indices in brackets, and keys below the root
  that start with \<open>$\<close> or whitespace are allowed.  Then for every node of the graph but
  the root, the text obtained by stripping the leading \<open>root\<close> or \<open>root.\<close> from its id is
  not empty when trimmed, and the lookup on it, normalized, tokenized and composed from
  \<open>root\<close>, finds in the same nodes a node of the same id; the node itself, when the ids
  are distinct; and \<open>doSearch\<close> with that text as query highlights the node's id.  The
  text of the root is empty: the lookup on it would find the root, and \<open>doSearch\<close> makes
  no lookup on an empty query, it only clears the message.
\<close>

theorem round_trip:
  "(allKeys pathKey v \<and> list_all opensPath (rootKeys v)
      \<and> n \<in> set (fst (buildFlowFromJSON v)) \<and> node_id n \<noteq> ''root'' \<longrightarrow>
      foundId (resolve (fst (buildFlowFromJSON v)) (clickText (node_id n))) = Some (node_id n)
      \<and> (distinct (map node_id (fst (buildFlowFromJSON v))) \<longrightarrow>
           resolve (fst (buildFlowFromJSON v)) (clickText (node_id n)) = Found n)
      \<and> (flowNodes st = fst (buildFlowFromJSON v) \<and> query st = clickText (node_id n) \<longrightarrow>
          doSearch st = st\<lparr> highlightId := node_id n, matchMsg := ''Match found'' \<rparr>))
   \<and> (n \<in> set (fst (buildFlowFromJSON v)) \<and> node_id n = ''root'' \<longrightarrow>
        clickText (node_id n) = []
        \<and> map_option node_id (findNodeByPath (fst (buildFlowFromJSON v))
             (normalizeQuery (trim (clickText (node_id n))))) = Some ''root''
        \<and> resolve (fst (buildFlowFromJSON v)) (clickText (node_id n)) = NoLookup)
   \<and> (query st' = [] \<longrightarrow> doSearch st' = st'\<lparr> matchMsg := [] \<rparr>)"
proof (intro conjI impI)
  assume a: "allKeys pathKey v \<and> list_all opensPath (rootKeys v)
      \<and> n \<in> set (fst (buildFlowFromJSON v)) \<and> node_id n \<noteq> ''root''"
  then have keys: "allKeys pathKey v" and roots: "list_all opensPath (rootKeys v)"
    and n: "n \<in> set (fst (buildFlowFromJSON v))" and r: "node_id n \<noteq> ''root''" by auto
  from resolve_click [OF keys roots n r] obtain m
    where m: "resolve (fst (buildFlowFromJSON v)) (clickText (node_id n)) = Found m"
      and i: "node_id m = node_id n" and mem: "m \<in> set (fst (buildFlowFromJSON v))"
    by blast
  show "foundId (resolve (fst (buildFlowFromJSON v)) (clickText (node_id n))) = Some (node_id n)"
    by (simp add: m i)
  {
    assume "distinct (map node_id (fst (buildFlowFromJSON v)))"
    from same_node [OF this mem n i] m
    show "resolve (fst (buildFlowFromJSON v)) (clickText (node_id n)) = Found n" by simp
  }
  {
    assume s: "flowNodes st = fst (buildFlowFromJSON v) \<and> query st = clickText (node_id n)"
    with m i show "doSearch st = st\<lparr> highlightId := node_id n, matchMsg := ''Match found'' \<rparr>"
      by (simp add: doSearch_resolve)
  }
next
  assume "n \<in> set (fst (buildFlowFromJSON v)) \<and> node_id n = ''root''"
  then show "clickText (node_id n) = []" using root_click(1) by blast
next
  assume "n \<in> set (fst (buildFlowFromJSON v)) \<and> node_id n = ''root''"
  then show "map_option node_id (findNodeByPath (fst (buildFlowFromJSON v))
             (normalizeQuery (trim (clickText (node_id n))))) = Some ''root''"
    using root_click(2) by blast
next
  assume "n \<in> set (fst (buildFlowFromJSON v)) \<and> node_id n = ''root''"
  then show "resolve (fst (buildFlowFromJSON v)) (clickText (node_id n)) = NoLookup"
    using root_click(3) by blast
next
  assume "query st' = []"
  then show "doSearch st' = st'\<lparr> matchMsg := [] \<rparr>" by (simp add: doSearch_resolve resolve_def)
qed

lemma dottedDoc_keys:
  "allKeys pathKey dottedDoc \<and> list_all opensPath (rootKeys dottedDoc)
   \<and> fst (buildFlowFromJSON dottedDoc) ! 3 \<in> set (fst (buildFlowFromJSON dottedDoc))
   \<and> node_id (fst (buildFlowFromJSON dottedDoc) ! 3) \<noteq> ''root''"
  by code_simp

lemma dottedDoc_ids:
  "map node_id (fst (buildFlowFromJSON dottedDoc))
     = [''root'', ''root.a.b'', ''root.a.b.$c'', ''root.a.b.$c[0]'', ''root.x[0]'']"
  by code_simp

lemma dottedDoc_distinct: "distinct (map node_id (fst (buildFlowFromJSON dottedDoc)))"
  unfolding dottedDoc_ids by simp

theorem round_trip_witness:
  "allKeys pathKey dottedDoc \<and> list_all opensPath (rootKeys dottedDoc)
   \<and> fst (buildFlowFromJSON dottedDoc) ! 3 \<in> set (fst (buildFlowFromJSON dottedDoc))
   \<and> node_id (fst (buildFlowFromJSON dottedDoc) ! 3) \<noteq> ''root''
   \<and> distinct (map node_id (fst (buildFlowFromJSON dottedDoc)))
   \<and> map node_id (fst (buildFlowFromJSON dottedDoc))
       = [''root'', ''root.a.b'', ''root.a.b.$c'', ''root.a.b.$c[0]'', ''root.x[0]'']
   \<and> resolve (fst (buildFlowFromJSON dottedDoc))
        (clickText (node_id (fst (buildFlowFromJSON dottedDoc) ! 3)))
       = Found (fst (buildFlowFromJSON dottedDoc) ! 3)"
proof -
  note T = round_trip [of dottedDoc "fst (buildFlowFromJSON dottedDoc) ! 3"]
  have "resolve (fst (buildFlowFromJSON dottedDoc))
        (clickText (node_id (fst (buildFlowFromJSON dottedDoc) ! 3)))
       = Found (fst (buildFlowFromJSON dottedDoc) ! 3)"
    using mp [OF conjunct1 [OF conjunct2 [OF mp [OF conjunct1 [OF T] dottedDoc_keys]]]
        dottedDoc_distinct] .
  with dottedDoc_keys dottedDoc_ids dottedDoc_distinct show ?thesis by (intro conjI) auto
qed


section \<open>Array indices with leading zeros\<close>

lemma toString_nonempty: "toString i \<noteq> []"
  using toString_digits [of i] by (simp add: digitsOnly_def)

lemma toString_zero: "toString 0 = ''0''"
  by (simp add: toString.simps)

lemma toString_canonical: "hd (toString i) = CHR ''0'' \<Longrightarrow> toString i = ''0''"
proof (induction i rule: toString.induct)
  case (1 n)
  show ?case
  proof (cases "n < 10")
    case True
    with "1.prems" show ?thesis
      by (subst (asm) toString.simps, subst toString.simps) simp
  next
    case False
    with "1.prems" have "hd (toString (n div 10)) = CHR ''0''"
      using toString_nonempty [of "n div 10"] by (subst (asm) toString.simps) simp
    with "1.IH" False have "toString (n div 10) = toString 0" by (simp add: toString_zero)
    then have "n div 10 = 0" by (rule toString_inj)
    with False show ?thesis by simp
  qed
qed

lemma toString_not_leadingZero: "leadingZero ds \<Longrightarrow> toString i \<noteq> ds"
  using toString_canonical [of i] by (auto simp: leadingZero_def)

lemma trim_padded:
  assumes l: "list_all isSpace l" and r: "list_all isSpace r" and d: "digitsOnly ds"
  shows "trim (l @ ds @ r) = ds"
proof -
  note e = digits_ends [OF d]
  have "dropWhile isSpace (l @ ds @ r) = dropWhile isSpace (ds @ r)"
    using l by (intro dropWhile_append2) (simp add: list_all_iff)
  also have "\<dots> = ds @ r" using e by (intro dropWhile_fix) simp
  finally have 1: "dropWhile isSpace (l @ ds @ r) = ds @ r" .
  have "dropWhile isSpace (rev r @ rev ds) = dropWhile isSpace (rev ds)"
    using r by (intro dropWhile_append2) (simp add: list_all_iff)
  also have "\<dots> = rev ds" using e by (intro dropWhile_fix) (simp add: hd_rev)
  finally have 2: "dropWhile isSpace (rev (ds @ r)) = rev ds" by simp
  show ?thesis unfolding trim_def 1 2 by simp
qed

lemma scan_padded:
  assumes l: "list_all isSpace l" and r: "list_all isSpace r" and d: "digitsOnly ds"
  shows "scan (''['' @ l @ ds @ r @ '']'' @ rest) buf acc
           = scan (eatDot rest) [] (flush buf acc @ [''['' @ ds @ '']''])"
proof -
  have "CHR '']'' \<notin> set (l @ ds @ r)"
    using space_no_bracket [OF l] space_no_bracket [OF r] digits_no_close [OF d] by simp
  from readBracket_closed [OF this, of rest "[]"]
  have rb: "readBracket (l @ ds @ r @ CHR '']'' # rest) [] = Some (l @ ds @ r, rest)" by simp
  have "scan (CHR ''['' # l @ ds @ r @ CHR '']'' # rest) buf acc
           = scan (eatDot rest) [] (flush buf acc @ [''['' @ ds @ '']''])"
    by (subst scan.simps) (simp add: rb trim_padded [OF l r d] d)
  then show ?thesis by simp
qed

lemma parse_a_index:
  assumes "digitsOnly ds"
  shows "parseJsonPath (''a['' @ ds @ '']'') = Some [''a'', ''['' @ ds @ '']'']"
proof -
  have t: "trim (CHR ''a'' # CHR ''['' # ds @ '']'') = CHR ''a'' # CHR ''['' # ds @ '']''"
    by (intro trim_id) (simp add: isSpace_def)
  have rb: "readBracket (ds @ '']'') [] = Some (ds, [])"
    using readBracket_closed [OF digits_no_close [OF assms], of "[]" "[]"] by simp
  have "scan (''a['' @ ds @ '']'') [] [] = Some [''a'', ''['' @ ds @ '']'']"
    using assms
    by (simp add: scan.simps rb trim_digits flush_def eatDot_def)
  then show ?thesis
    by (simp add: parseJsonPath_def t startsWith_def Let_def)
qed

lemma hasZeroIndex_none: "CHR ''['' \<notin> set s \<Longrightarrow> \<not> hasZeroIndex s"
  by (induction s) auto

lemma leadingZero_no_sep:
  "leadingZero ds \<Longrightarrow> CHR ''.'' \<notin> set ds \<and> CHR ''['' \<notin> set ds \<and> CHR '']'' \<notin> set ds"
  by (auto simp: leadingZero_def digitsOnly_def list_all_iff)

lemma zeroIndexHead_append:
  assumes "tailOK B"
  shows "zeroIndexHead (A @ B) = (if CHR '']'' \<in> set A then zeroIndexHead A else A = [] \<and> zeroIndexHead B)"
proof (cases "CHR '']'' \<in> set A")
  case True
  then have "takeWhile (\<lambda>d. d \<noteq> CHR '']'') (A @ B) = takeWhile (\<lambda>d. d \<noteq> CHR '']'') A"
    by (intro takeWhile_append1 [where x = "CHR '']''"]) simp_all
  with True show ?thesis by (simp add: zeroIndexHead_def)
next
  case False
  show ?thesis
  proof (cases "A = []")
    case True
    then show ?thesis by simp
  next
    case ne: False
    have "\<not> zeroIndexHead (A @ B)"
    proof
      assume z: "zeroIndexHead (A @ B)"
      then have m: "CHR '']'' \<in> set B" using False by (simp add: zeroIndexHead_def)
      then obtain b B' where B: "B = b # B'" by (cases B) auto
      with assms have b: "b = CHR ''.'' \<or> b = CHR ''[''" by (simp add: tailOK_def)
      have "takeWhile (\<lambda>d. d \<noteq> CHR '']'') (A @ B) = A @ takeWhile (\<lambda>d. d \<noteq> CHR '']'') B"
        using False by (intro takeWhile_append2) auto
      then have "b \<in> set (takeWhile (\<lambda>d. d \<noteq> CHR '']'') (A @ B))" using b B by auto
      with z b leadingZero_no_sep show False by (auto simp: zeroIndexHead_def)
    qed
    with False ne show ?thesis by simp
  qed
qed

lemma hasZeroIndex_append:
  "tailOK B \<Longrightarrow> hasZeroIndex (A @ B) = (hasZeroIndex A \<or> hasZeroIndex B)"
proof (induction A)
  case Nil
  then show ?case by simp
next
  case (Cons a A)
  have "\<not> zeroIndexHead A" if "CHR '']'' \<notin> set A" using that by (simp add: zeroIndexHead_def)
  moreover have "\<not> (a = CHR ''['' \<and> A = [] \<and> zeroIndexHead B)"
  proof
    assume h: "a = CHR ''['' \<and> A = [] \<and> zeroIndexHead B"
    then have "CHR '']'' \<in> set B" by (simp add: zeroIndexHead_def)
    then obtain b B' where B: "B = b # B'" by (cases B) auto
    with Cons.prems have b: "b = CHR ''.'' \<or> b = CHR ''[''" by (simp add: tailOK_def)
    then have "b \<in> set (takeWhile (\<lambda>d. d \<noteq> CHR '']'') B)" using B by auto
    with h b leadingZero_no_sep show False by (auto simp: zeroIndexHead_def)
  qed
  ultimately show ?case
    using Cons by (auto simp: zeroIndexHead_append)
qed

lemma hasZeroIndex_segs:
  "hasZeroIndex (concat (map seg ts)) = (\<exists>t\<in>set ts. hasZeroIndex (seg t))"
proof (induction ts)
  case Nil
  show ?case by simp
next
  case (Cons t ts)
  have "hasZeroIndex (seg t @ concat (map seg ts))
      = (hasZeroIndex (seg t) \<or> hasZeroIndex (concat (map seg ts)))"
    by (rule hasZeroIndex_append [OF tailOK_concat])
  with Cons show ?case by simp
qed

lemma hasZeroIndex_seg: "hasZeroIndex (seg k) = hasZeroIndex k"
  by (simp add: seg_def)

lemma hasZeroIndex_bracket:
  assumes "digitsOnly ds"
  shows "hasZeroIndex (''['' @ ds @ '']'') = leadingZero ds"
proof -
  have n: "CHR '']'' \<notin> set ds" by (rule digits_no_close [OF assms])
  have "CHR ''['' \<notin> set (ds @ '']'')" using assms by (auto simp: digitsOnly_def list_all_iff)
  then have 1: "\<not> hasZeroIndex (ds @ '']'')" by (rule hasZeroIndex_none)
  have "takeWhile (\<lambda>d. d \<noteq> CHR '']'') (ds @ '']'') = ds"
    using n by (intro takeWhile_tail) auto
  then have "zeroIndexHead (ds @ '']'') = leadingZero ds" by (simp add: zeroIndexHead_def)
  with 1 show ?thesis by simp
qed

lemma hasZeroIndex_indexKey: "\<not> hasZeroIndex (indexKey i)"
  using hasZeroIndex_bracket [OF toString_digits, of i] toString_not_leadingZero [of "toString i" i]
  by (auto simp: indexKey_def)

lemma no_such_id:
  assumes keys: "allKeys noZeroIndex v" and g: "list_all goodTok ts"
    and z: "leadingZero ds" and m: "''['' @ ds @ '']'' \<in> set ts"
    and n: "n \<in> set (fst (buildFlowFromJSON v))"
  shows "node_id n \<noteq> fold (\<lambda>t path. makeChildPath path t) ts ''root''"
proof
  assume i: "node_id n = fold (\<lambda>t path. makeChildPath path t) ts ''root''"
  from n have "node_id n \<in> set (map node_id (fst (buildFlowFromJSON v)))" by simp
  then obtain us where us: "us \<in> set (paths v)" and j: "node_id n = compose ''root'' us"
    unfolding build_ids by auto
  from paths_tokens(1) [of noZeroIndex v] keys us have b: "list_all (builderTok noZeroIndex) us"
    by blast
  from i j have e: "concat (map seg ts) = concat (map seg us)"
    by (simp add: compose_seg compose_def [symmetric])
  from z have d: "digitsOnly ds" by (simp add: leadingZero_def)
  have "hasZeroIndex (seg (''['' @ ds @ '']''))"
    using hasZeroIndex_bracket [OF d] z by (simp add: hasZeroIndex_seg)
  with m have "hasZeroIndex (concat (map seg ts))" unfolding hasZeroIndex_segs by blast
  then have "hasZeroIndex (concat (map seg us))" by (simp add: e)
  then obtain u where u: "u \<in> set us" and h: "hasZeroIndex u"
    unfolding hasZeroIndex_segs hasZeroIndex_seg by blast
  from b u have "builderTok noZeroIndex u" by (simp add: list_all_iff)
  with h hasZeroIndex_indexKey show False by (auto simp: builderTok_def noZeroIndex_def)
qed

lemma unresolvable:
  assumes keys: "allKeys noZeroIndex v" and p: "parseJsonPath q = Some ts"
    and z: "leadingZero ds" and m: "''['' @ ds @ '']'' \<in> set ts"
  shows "findNodeByPath (fst (buildFlowFromJSON v)) q = None"
proof -
  have g: "list_all goodTok ts" by (rule parseJsonPath_good [OF p])
  have "\<not> (\<exists>n\<in>set (fst (buildFlowFromJSON v)).
      node_id n = fold (\<lambda>t path. makeChildPath path t) ts ''root'')"
    using no_such_id [OF keys g z m] by blast
  then show ?thesis by (simp add: findNodeByPath_def p find_None_iff)
qed


lemma hasZeroIndex_iff:
  "hasZeroIndex s \<longleftrightarrow> (\<exists>X ds Y. leadingZero ds \<and> s = X @ ''['' @ ds @ '']'' @ Y)"
proof
  show "hasZeroIndex s \<Longrightarrow> \<exists>X ds Y. leadingZero ds \<and> s = X @ ''['' @ ds @ '']'' @ Y"
  proof (induction s)
    case Nil
    then show ?case by simp
  next
    case (Cons c cs)
    show ?case
    proof (cases "c = CHR ''['' \<and> zeroIndexHead cs")
      case True
      let ?ds = "takeWhile (\<lambda>d. d \<noteq> CHR '']'') cs"
      let ?rest = "dropWhile (\<lambda>d. d \<noteq> CHR '']'') cs"
      from True have m: "CHR '']'' \<in> set cs" and z: "leadingZero ?ds"
        by (simp_all add: zeroIndexHead_def)
      from m have "?rest \<noteq> []" by simp
      moreover have "?rest \<noteq> [] \<Longrightarrow> hd ?rest = CHR '']''"
        using hd_dropWhile [of "\<lambda>d. d \<noteq> CHR '']''" cs] by auto
      ultimately have "?rest = CHR '']'' # drop 1 ?rest" by (cases ?rest) auto
      then have "cs = ?ds @ CHR '']'' # drop 1 ?rest" by (metis takeWhile_dropWhile_id)
      then have "c # cs = [] @ ''['' @ ?ds @ '']'' @ drop 1 ?rest" using True by simp
      with z show ?thesis by blast
    next
      case False
      with Cons.prems have "hasZeroIndex cs" by auto
      from Cons.IH [OF this] obtain X ds Y where "leadingZero ds" "cs = X @ ''['' @ ds @ '']'' @ Y"
        by blast
      then have "leadingZero ds \<and> c # cs = (c # X) @ ''['' @ ds @ '']'' @ Y" by simp
      then show ?thesis by blast
    qed
  qed
next
  assume "\<exists>X ds Y. leadingZero ds \<and> s = X @ ''['' @ ds @ '']'' @ Y"
  then obtain X ds Y where z: "leadingZero ds" and s: "s = X @ ''['' @ ds @ '']'' @ Y" by blast
  from z have "CHR '']'' \<notin> set ds" using leadingZero_no_sep by blast
  then have "takeWhile (\<lambda>d. d \<noteq> CHR '']'') (ds @ CHR '']'' # Y) = ds"
    by (intro takeWhile_tail) auto
  with z have "zeroIndexHead (ds @ CHR '']'' # Y)" by (simp add: zeroIndexHead_def)
  then have "hasZeroIndex (''['' @ ds @ '']'' @ Y)" by simp
  then show "hasZeroIndex s" unfolding s by (induction X) auto
qed

text \<open>
  C8, as the claim states it: the path composed for \<open>a[01]\<close>, \<open>root.a[01]\<close>, would differ
  from every id the builder produces.  The builder gives the member of \<open>{"a[01]": 1}\<close>
  that id, and the query \<open>a[01]\<close> finds it.
\<close>

theorem leading_zero_counterexample:
  "map node_id (fst (buildFlowFromJSON (docWithKey ''a[01]''))) = [''root'', ''root.a[01]'']
   \<and> parseJsonPath ''a[01]'' = Some [''a'', ''[01]'']
   \<and> fold (\<lambda>t path. makeChildPath path t) [''a'', ''[01]''] ''root'' = ''root.a[01]''
   \<and> foundId (resolve (fst (buildFlowFromJSON (docWithKey ''a[01]''))) ''a[01]'')
        = Some ''root.a[01]''
   \<and> matchMsg (doSearch (showing (docWithKey ''a[01]'') ''a[01]'')) = ''Match found''"
  by code_simp

text \<open>
  C8, amended.  At a \<open>[\<close>, wherever it stands in the text, \<open>parseJsonPath\<close> accepts any
  string of digits, with or without whitespace around it, as a bracket index and pushes
  the digits as they are; so \<open>a[ds]\<close> tokenizes to \<open>a\<close> and \<open>[ds]\<close> for every string of
  digits \<open>ds\<close>.  The builder writes an array index without leading zeros, so a bracket
  token with a leading zero is none of the builder's index keys.  In the graph of a
  document none of whose object keys contains an index with a leading zero (\<open>[\<close>, two or
  more digits of which the first is \<open>0\<close>, \<open>]\<close>), the path composed for a query with such
  a token is the id of no node, the lookup finds nothing, and \<open>doSearch\<close> answers
  \<open>No match found\<close>.  In the graph of \<open>{"a": [10, 20]}\<close> the query \<open>a[01]\<close> is answered
  with \<open>No match found\<close>, while \<open>a[1]\<close> finds \<open>root.a[1]\<close>.
\<close>

theorem leading_zero_index:
  "(digitsOnly ds \<and> list_all isSpace l \<and> list_all isSpace r \<longrightarrow>
      scan (''['' @ l @ ds @ r @ '']'' @ rest) buf acc
        = scan (eatDot rest) [] (flush buf acc @ [''['' @ ds @ '']'']))
   \<and> (digitsOnly ds \<longrightarrow> parseJsonPath (''a['' @ ds @ '']'') = Some [''a'', ''['' @ ds @ '']''])
   \<and> (leadingZero ds \<longrightarrow> ''['' @ ds @ '']'' \<noteq> ''['' @ toString i @ '']'')
   \<and> (allKeys noZeroIndex v \<and> parseJsonPath q = Some ts \<and> leadingZero ds
        \<and> ''['' @ ds @ '']'' \<in> set ts \<longrightarrow>
        (\<forall>n\<in>set (fst (buildFlowFromJSON v)).
            node_id n \<noteq> fold (\<lambda>t path. makeChildPath path t) ts ''root'')
        \<and> findNodeByPath (fst (buildFlowFromJSON v)) q = None
        \<and> (flowNodes st = fst (buildFlowFromJSON v) \<and> trim (query st) \<noteq> []
             \<and> normalizeQuery (trim (query st)) = q \<longrightarrow>
            resolve (flowNodes st) (query st) = NotFound
            \<and> doSearch st = st\<lparr> highlightId := [], matchMsg := ''No match found'' \<rparr>))
   \<and> parseJsonPath ''a[01]'' = Some [''a'', ''[01]'']
   \<and> resolve (fst (buildFlowFromJSON zeroDoc)) ''a[01]'' = NotFound
   \<and> matchMsg (doSearch (showing zeroDoc ''a[01]'')) = ''No match found''
   \<and> foundId (resolve (fst (buildFlowFromJSON zeroDoc)) ''a[1]'') = Some ''root.a[1]''
   \<and> matchMsg (doSearch (showing zeroDoc ''a[1]'')) = ''Match found''"
proof (intro conjI impI ballI)
  assume "digitsOnly ds \<and> list_all isSpace l \<and> list_all isSpace r"
  then show "scan (''['' @ l @ ds @ r @ '']'' @ rest) buf acc
        = scan (eatDot rest) [] (flush buf acc @ [''['' @ ds @ '']''])"
    using scan_padded [of l r ds rest buf acc] by blast
next
  assume "digitsOnly ds"
  then show "parseJsonPath (''a['' @ ds @ '']'') = Some [''a'', ''['' @ ds @ '']'']"
    by (rule parse_a_index)
next
  assume "leadingZero ds"
  then show "''['' @ ds @ '']'' \<noteq> ''['' @ toString i @ '']''"
    using toString_not_leadingZero [of ds i] by simp
next
  fix n
  assume a: "allKeys noZeroIndex v \<and> parseJsonPath q = Some ts \<and> leadingZero ds
        \<and> ''['' @ ds @ '']'' \<in> set ts"
    and n: "n \<in> set (fst (buildFlowFromJSON v))"
  from a have "list_all goodTok ts" using parseJsonPath_good [of q ts] by blast
  with a n show "node_id n \<noteq> fold (\<lambda>t path. makeChildPath path t) ts ''root''"
    using no_such_id [of v ts ds n] by blast
next
  assume "allKeys noZeroIndex v \<and> parseJsonPath q = Some ts \<and> leadingZero ds
        \<and> ''['' @ ds @ '']'' \<in> set ts"
  then show "findNodeByPath (fst (buildFlowFromJSON v)) q = None"
    using unresolvable [of v q ts ds] by blast
next
  assume a: "allKeys noZeroIndex v \<and> parseJsonPath q = Some ts \<and> leadingZero ds
        \<and> ''['' @ ds @ '']'' \<in> set ts"
    and s: "flowNodes st = fst (buildFlowFromJSON v) \<and> trim (query st) \<noteq> []
             \<and> normalizeQuery (trim (query st)) = q"
  from a have "findNodeByPath (fst (buildFlowFromJSON v)) q = None"
    using unresolvable [of v q ts ds] by blast
  with s show r: "resolve (flowNodes st) (query st) = NotFound"
    by (simp add: resolve_def)
  then show "doSearch st = st\<lparr> highlightId := [], matchMsg := ''No match found'' \<rparr>"
    by (simp add: doSearch_resolve)
next
  show "parseJsonPath ''a[01]'' = Some [''a'', ''[01]'']" by code_simp
  show "resolve (fst (buildFlowFromJSON zeroDoc)) ''a[01]'' = NotFound" by code_simp
  show "matchMsg (doSearch (showing zeroDoc ''a[01]'')) = ''No match found''" by code_simp
  show "foundId (resolve (fst (buildFlowFromJSON zeroDoc)) ''a[1]'') = Some ''root.a[1]''"
    by code_simp
  show "matchMsg (doSearch (showing zeroDoc ''a[1]'')) = ''Match found''" by code_simp
qed

lemma zero_pad: "digitsOnly ''01'' \<and> list_all isSpace '' '' \<and> list_all isSpace '' ''"
  by code_simp

lemma zero_one:
  "allKeys noZeroIndex zeroDoc \<and> parseJsonPath ''a[01]'' = Some [''a'', ''[01]'']
   \<and> leadingZero ''01'' \<and> ''['' @ ''01'' @ '']'' \<in> set [''a'', ''[01]'']"
  by code_simp

lemma zero_state:
  "flowNodes (showing zeroDoc ''a[01]'') = fst (buildFlowFromJSON zeroDoc)
   \<and> trim (query (showing zeroDoc ''a[01]'')) \<noteq> []
   \<and> normalizeQuery (trim (query (showing zeroDoc ''a[01]''))) = ''a[01]''"
  by (simp add: showing_def) code_simp

theorem leading_zero_index_witness:
  "digitsOnly ''01'' \<and> list_all isSpace '' '' \<and> list_all isSpace '' ''
   \<and> scan (''['' @ '' '' @ ''01'' @ '' '' @ '']'' @ ''.x'') ''a'' []
       = scan (eatDot ''.x'') [] (flush ''a'' [] @ [''['' @ ''01'' @ '']''])
   \<and> parseJsonPath (''a['' @ ''01'' @ '']'') = Some [''a'', ''['' @ ''01'' @ '']'']
   \<and> ''['' @ ''01'' @ '']'' \<noteq> ''['' @ toString 1 @ '']''
   \<and> allKeys noZeroIndex zeroDoc \<and> parseJsonPath ''a[01]'' = Some [''a'', ''[01]'']
   \<and> leadingZero ''01'' \<and> ''['' @ ''01'' @ '']'' \<in> set [''a'', ''[01]'']
   \<and> fold (\<lambda>t path. makeChildPath path t) [''a'', ''[01]''] ''root''
       \<notin> set (map node_id (fst (buildFlowFromJSON zeroDoc)))
   \<and> findNodeByPath (fst (buildFlowFromJSON zeroDoc)) ''a[01]'' = None
   \<and> resolve (flowNodes (showing zeroDoc ''a[01]'')) (query (showing zeroDoc ''a[01]''))
       = NotFound"
proof -
  note T = leading_zero_index [where ds = "''01''" and l = "'' ''" and r = "'' ''"
      and rest = "''.x''" and buf = "''a''" and acc = "[]" and i = 1 and v = zeroDoc
      and q = "''a[01]''" and ts = "[''a'', ''[01]'']" and st = "showing zeroDoc ''a[01]''"]
  from zero_one have z: "leadingZero ''01''" and d: "digitsOnly ''01''"
    by (simp_all add: leadingZero_def)
  note c1 = mp [OF conjunct1 [OF T] zero_pad]
  note c2 = mp [OF conjunct1 [OF conjunct2 [OF T]] d]
  note c3 = mp [OF conjunct1 [OF conjunct2 [OF conjunct2 [OF T]]] z]
  note c4 = mp [OF conjunct1 [OF conjunct2 [OF conjunct2 [OF conjunct2 [OF T]]]] zero_one]
  note c5 = conjunct1 [OF mp [OF conjunct2 [OF conjunct2 [OF c4]] zero_state]]
  have c6: "fold (\<lambda>t path. makeChildPath path t) [''a'', ''[01]''] ''root''
       \<notin> set (map node_id (fst (buildFlowFromJSON zeroDoc)))"
  proof
    assume "fold (\<lambda>t path. makeChildPath path t) [''a'', ''[01]''] ''root''
       \<in> set (map node_id (fst (buildFlowFromJSON zeroDoc)))"
    then obtain n where n: "n \<in> set (fst (buildFlowFromJSON zeroDoc))"
      and e: "node_id n = fold (\<lambda>t path. makeChildPath path t) [''a'', ''[01]''] ''root''"
      unfolding set_map by (elim imageE) (rule that, assumption, rule sym, assumption)
    from bspec [OF conjunct1 [OF c4] n] e show False by (elim notE)
  qed
  show ?thesis
    using zero_pad c1 c2 c3 zero_one c6 conjunct1 [OF conjunct2 [OF c4]] c5
    by (intro conjI) (elim conjE, assumption)+
qed

end
